theory Spec2Isabelle
  imports Complex_Main "HOL-Library.AList"
begin

section \<open>Errors\<close>

text \<open>
  Every exception the modelled code can raise is a value.  \<open>RangeError\<close> is the
  \<^verbatim>\<open>RangeError\<close> thrown by \<^verbatim>\<open>faceToVertices\<close>, \<open>NodeLinkError\<close> is the
  \<^verbatim>\<open>Error("A NodeD can only be linked to two other nodes!")\<close> of \<^verbatim>\<open>linkTo\<close>,
  and \<open>TypeError\<close> is what JavaScript raises when a property of \<^verbatim>\<open>undefined\<close> is read.
  \<open>DimensionMismatch\<close> is the failure of an operation on two points of different
  dimensions.  \<open>OutOfModel\<close> marks the one place, in \<open>pushInto\<close>, where the source
  would go on computing with the value \<^verbatim>\<open>undefined\<close> as an array index; the model
  stops there.
\<close>

datatype error = RangeError | TypeError | NodeLinkError | DimensionMismatch | OutOfModel

section \<open>Points\<close>

text \<open>
  Modelled from the spec: the class \<^verbatim>\<open>Point\<close> (geometry/Point) is not part of the
  sources at hand.  A point is an ordered tuple of numbers; \<^verbatim>\<open>dimensions()\<close> is the
  number of coordinates, \<^verbatim>\<open>new Point(n)\<close> for a number \<open>n\<close> is the origin of
  \<open>n\<close>-dimensional space, \<^verbatim>\<open>magnitude()\<close> is the Euclidean norm and
  \<^verbatim>\<open>Space.distance\<close> the Euclidean distance.  JavaScript numbers are idealised as real
  numbers.
\<close>

datatype Point = Point (coordinates: "real list")

definition dimensionsP :: "Point \<Rightarrow> nat" where
  "dimensionsP p = length (coordinates p)"

definition sqMagnitude :: "Point \<Rightarrow> real" where
  "sqMagnitude p = sum_list (map (\<lambda>x. x * x) (coordinates p))"

definition magnitude :: "Point \<Rightarrow> real" where
  "magnitude p = sqrt (sqMagnitude p)"

definition subtractP :: "Point \<Rightarrow> Point \<Rightarrow> Point" where
  "subtractP p q = Point (map (\<lambda>(x, y). x - y) (zip (coordinates p) (coordinates q)))"

definition distance :: "Point \<Rightarrow> Point \<Rightarrow> real" where
  "distance p q = magnitude (subtractP p q)"

section \<open>The explicit polytope \<^verbatim>\<open>PolytopeC\<close>\<close>

text \<open>
  \<^verbatim>\<open>type ElementList = [Point[], ...number[][][]] | []\<close>: either the empty list (the
  nullitope) or the vertices followed by the levels of higher elements, each element a
  list of indices into the level below.
\<close>

datatype ElementList = Nullitope | Levels (vertexLevel: "Point list") (higherLevels: "nat list list list")

fun lengthEL :: "ElementList \<Rightarrow> nat" where
  "lengthEL Nullitope = 0"
| "lengthEL (Levels vs hs) = Suc (length hs)"

text \<open>\<^verbatim>\<open>elementList[k].length\<close> for an arbitrary integer \<open>k\<close>; \<open>None\<close> is \<^verbatim>\<open>undefined\<close>.\<close>

fun levelLength :: "ElementList \<Rightarrow> int \<Rightarrow> nat option" where
  "levelLength Nullitope k = None"
| "levelLength (Levels vs hs) k =
     (if k = 0 then Some (length vs)
      else if 0 < k \<and> k \<le> int (length hs) then Some (length (hs ! (nat k - 1)))
      else None)"

text \<open>\<^verbatim>\<open>elementList[k]\<close> for \<open>k \<ge> 1\<close>; \<open>None\<close> is \<^verbatim>\<open>undefined\<close>.\<close>

fun higherLevel :: "ElementList \<Rightarrow> nat \<Rightarrow> nat list list option" where
  "higherLevel Nullitope k = None"
| "higherLevel (Levels vs hs) k =
     (if 0 < k \<and> k \<le> length hs then Some (hs ! (k - 1)) else None)"

text \<open>Only the two construction nodes that \<^verbatim>\<open>types.ts\<close> builds are needed.\<close>

datatype ConstructionNode = CNPlain nat int | CNName string

record PolytopeC =
  construction :: ConstructionNode
  dimensions :: int
  spaceDimensions :: int
  elementList :: ElementList

text \<open>
  The constructor.  Without a construction node it reads
  \<^verbatim>\<open>elementList[elementList.length - 2].length\<close>; with fewer than two levels that entry is
  \<^verbatim>\<open>undefined\<close> and reading its \<^verbatim>\<open>length\<close> raises.  \<^verbatim>\<open>elementList[0][0].dimensions()\<close>
  raises likewise when the vertex level is there but empty.
\<close>

definition defaultConstruction :: "ElementList \<Rightarrow> error + ConstructionNode" where
  "defaultConstruction el =
     (case levelLength el (int (lengthEL el) - 2) of
        None \<Rightarrow> Inl TypeError
      | Some n \<Rightarrow> Inr (CNPlain n (int (lengthEL el) - 1)))"

definition initialSpaceDimensions :: "ElementList \<Rightarrow> error + int" where
  "initialSpaceDimensions el =
     (case el of
        Nullitope \<Rightarrow> Inr (- 1)
      | Levels vs hs \<Rightarrow>
          (case vs of [] \<Rightarrow> Inl TypeError | v # _ \<Rightarrow> Inr (int (dimensionsP v))))"

definition newPolytopeC :: "ElementList \<Rightarrow> ConstructionNode option \<Rightarrow> error + PolytopeC" where
  "newPolytopeC el constr =
     (case (case constr of None \<Rightarrow> defaultConstruction el | Some c \<Rightarrow> Inr c) of
        Inl e \<Rightarrow> Inl e
      | Inr c \<Rightarrow>
          (case initialSpaceDimensions el of
             Inl e \<Rightarrow> Inl e
           | Inr sd \<Rightarrow>
               Inr \<lparr>construction = c, dimensions = int (lengthEL el) - 1,
                    spaceDimensions = sd, elementList = el\<rparr>))"

subsection \<open>\<^verbatim>\<open>setSpaceDimensions\<close>\<close>

text \<open>
  The padding loop \<^verbatim>\<open>for (let j = 0; j < dim - coords.length; j++) coords.push(0)\<close>
  evaluates its bound again after every push.
\<close>

function padLoop :: "nat \<Rightarrow> int \<Rightarrow> real list \<Rightarrow> real list" where
  "padLoop j dm coords =
     (if int j < dm - int (length coords) then padLoop (Suc j) dm (coords @ [0]) else coords)"
  by pat_completeness auto
termination
  by (relation "measure (\<lambda>(j, dm, coords). nat (dm - int (length coords) - int j))") auto

text \<open>
  One round of the loop over the vertices.  In the first branch the slice is assigned to
  the local variable \<^verbatim>\<open>coords\<close> only, so the vertex keeps its coordinates; in the
  second branch \<^verbatim>\<open>push\<close> changes the vertex's own array.
\<close>

definition resizeVertex :: "int \<Rightarrow> Point \<Rightarrow> Point" where
  "resizeVertex dm v =
     (let coords = coordinates v in
      if int (length coords) > dm then v
      else if int (length coords) < dm then Point (padLoop 0 dm coords)
      else v)"

definition setSpaceDimensions :: "int \<Rightarrow> PolytopeC \<Rightarrow> PolytopeC" where
  "setSpaceDimensions dm P =
     (case elementList P of
        Nullitope \<Rightarrow> P
      | Levels vs hs \<Rightarrow>
          P\<lparr>elementList := Levels (map (resizeVertex dm) vs) hs, spaceDimensions := dm\<rparr>)"

subsection \<open>\<^verbatim>\<open>circumradius\<close>\<close>

text \<open>
  \<^verbatim>\<open>const els = this.toPolytopeC().elementList; return els[0] ? els[0][0].magnitude() : 0;\<close>
  On a \<^verbatim>\<open>PolytopeC\<close>, \<^verbatim>\<open>toPolytopeC()\<close> returns the polytope itself.  An empty vertex
  array is truthy, so \<^verbatim>\<open>els[0][0]\<close> is \<^verbatim>\<open>undefined\<close> there and the call raises.
\<close>

definition circumradius :: "PolytopeC \<Rightarrow> error + real" where
  "circumradius P =
     (case elementList P of
        Nullitope \<Rightarrow> Inr 0
      | Levels vs hs \<Rightarrow> (case vs of [] \<Rightarrow> Inl TypeError | v # _ \<Rightarrow> Inr (magnitude v)))"

text \<open>The origin of \<open>n\<close>-dimensional space, \<^verbatim>\<open>new Point(n)\<close>.\<close>

definition origin :: "nat \<Rightarrow> Point" where
  "origin n = Point (replicate n 0)"

text \<open>
  A point is equidistant from the vertices at distance \<open>R\<close>: what the glossary calls a
  circumcenter, \<open>R\<close> being the geometric circumradius.
\<close>

definition equidistant :: "Point \<Rightarrow> real \<Rightarrow> Point list \<Rightarrow> bool" where
  "equidistant c R vs = list_all (\<lambda>v. distance c v = R) vs"


subsection \<open>\<^verbatim>\<open>circumcenter\<close>\<close>


definition scaleP :: "Point \<Rightarrow> real \<Rightarrow> Point" where
  "scaleP p r = Point (map (\<lambda>x. x * r) (coordinates p))"

definition dot :: "Point \<Rightarrow> Point \<Rightarrow> real" where
  "dot p q = sum_list (map (\<lambda>(x, y). x * y) (zip (coordinates p) (coordinates q)))"

definition project :: "Point \<Rightarrow> Point \<Rightarrow> Point" where
  "project q v = scaleP v (dot q v / dot v v)"

definition distanceSq :: "Point \<Rightarrow> Point \<Rightarrow> real" where
  "distanceSq p q = sqMagnitude (subtractP p q)"

text \<open>\<^verbatim>\<open>const epsilon = 1e-9\<close>\<close>

definition epsilon :: real where
  "epsilon = 1 / 10 ^ 9"

text \<open>
  The inner loop: \<^verbatim>\<open>let v = Q; for (j ...) v = v.subtract(Q.project(vectors[j]))\<close>,
  called with \<open>v = Q\<close>.
\<close>

fun residual :: "Point \<Rightarrow> Point list \<Rightarrow> Point \<Rightarrow> Point" where
  "residual Q [] v = v"
| "residual Q (u # us) v = residual Q us (subtractP v (project Q u))"





text \<open>
  Polytopes for the examples, each as the constructor builds it (the nullitope and the
  single point with a construction node supplied): the nullitope; a single vertex;
  the regular triangle on the unit vectors of 3-space; the four coplanar points
  \<open>(0,0), (6,0), (0,8), (9,12)\<close>, the last of which is not on the circle through the
  other three; a triangle whose third vertex is \<open>5 \<cdot> 10\<^sup>-\<^sup>1\<^sup>0\<close> off the line through the
  first two; a quadrilateral whose third vertex is \<open>9 \<cdot> 10\<^sup>-\<^sup>1\<^sup>0\<close> off that line.
\<close>

definition nullitopeC :: PolytopeC where
  "nullitopeC = \<lparr>construction = CNName ''nullitope'', dimensions = - 1, spaceDimensions = - 1,
                  elementList = Nullitope\<rparr>"

definition pointC :: PolytopeC where
  "pointC = \<lparr>construction = CNName ''point'', dimensions = 0, spaceDimensions = 2,
              elementList = Levels [Point [3, 4]] []\<rparr>"

definition regularTriangleC :: PolytopeC where
  "regularTriangleC = \<lparr>construction = CNPlain 3 2, dimensions = 2, spaceDimensions = 3,
        elementList = Levels [Point [1, 0, 0], Point [0, 1, 0], Point [0, 0, 1]]
                        [[[0, 1], [1, 2], [2, 0]], [[0, 1, 2]]]\<rparr>"

definition nonConcyclicC :: PolytopeC where
  "nonConcyclicC = \<lparr>construction = CNPlain 4 2, dimensions = 2, spaceDimensions = 2,
        elementList = Levels [Point [0, 0], Point [6, 0], Point [0, 8], Point [9, 12]]
                        [[[0, 1], [1, 3], [3, 2], [2, 0]], [[0, 1, 2, 3]]]\<rparr>"

definition thinTriangleC :: PolytopeC where
  "thinTriangleC = \<lparr>construction = CNPlain 3 2, dimensions = 2, spaceDimensions = 2,
        elementList = Levels [Point [0, 0], Point [2, 0], Point [1, 1 / (2 * 10 ^ 9)]]
                        [[[0, 1], [1, 2], [2, 0]], [[0, 1, 2]]]\<rparr>"

definition skewC :: PolytopeC where
  "skewC = \<lparr>construction = CNPlain 4 2, dimensions = 2, spaceDimensions = 2,
        elementList = Levels [Point [0, 0], Point [2, 0], Point [2 + 9 / 10 ^ 10, - (9 / 10 ^ 10)],
                              Point [1, 2]]
                        [[[0, 1], [1, 2], [2, 3], [3, 0]], [[0, 1, 2, 3]]]\<rparr>"
section \<open>The doubly linked node \<^verbatim>\<open>NodeD\<close> and \<^verbatim>\<open>faceToVertices\<close>\<close>

text \<open>\<^verbatim>\<open>xs[i]\<close> on a JavaScript array: \<open>None\<close> is \<^verbatim>\<open>undefined\<close>.\<close>

definition nthOpt :: "'a list \<Rightarrow> nat \<Rightarrow> 'a option" where
  "nthOpt xs i = (if i < length xs then Some (xs ! i) else None)"

text \<open>
  What \<^verbatim>\<open>edge[0]\<close> and \<^verbatim>\<open>edge[1]\<close> give: a vertex index, or \<^verbatim>\<open>undefined\<close> on an
  edge with too few entries.  The code goes on with either: it is the value of the node
  and the key under which the node is kept.
\<close>

datatype vertexKey = Undefined | Index nat

definition entry :: "nat list \<Rightarrow> nat \<Rightarrow> vertexKey" where
  "entry e k = (if k < length e then Index (e ! k) else Undefined)"

text \<open>
  A node of \<^verbatim>\<open>nodeD.js\<close>.  \<^verbatim>\<open>faceToVertices\<close> keeps its nodes in the sparse array
  \<^verbatim>\<open>vertexDLL\<close>, the node of vertex \<open>v\<close> at index \<open>v\<close>; \<^verbatim>\<open>vertexDLL[undefined]\<close> is
  the property named \<^verbatim>\<open>undefined\<close> of the same array object.  A node is created once
  and never replaced, so a reference to a node is modelled by its key.  \<open>None\<close> in a
  slot or in a link is \<^verbatim>\<open>undefined\<close>.  The \<^verbatim>\<open>id\<close> counter is not read by any function
  modelled here.
\<close>

record NodeD =
  nodeValue :: vertexKey
  node0 :: "vertexKey option"
  node1 :: "vertexKey option"
  traversed :: bool

record vertexDLL =
  indexed :: "NodeD option list"
  undefinedProperty :: "NodeD option"

text \<open>\<^verbatim>\<open>const vertexDLL = []\<close>\<close>

definition emptyDLL :: vertexDLL where
  "emptyDLL = \<lparr>indexed = [], undefinedProperty = None\<rparr>"

definition newNodeD :: "vertexKey \<Rightarrow> NodeD" where
  "newNodeD v = \<lparr>nodeValue = v, node0 = None, node1 = None, traversed = False\<rparr>"

definition getNode :: "vertexDLL \<Rightarrow> vertexKey \<Rightarrow> NodeD option" where
  "getNode dll key =
     (case key of
        Undefined \<Rightarrow> undefinedProperty dll
      | Index k \<Rightarrow> if k < length (indexed dll) then indexed dll ! k else None)"

text \<open>Writing past the end of a JavaScript array extends it with holes.\<close>

definition setNode :: "vertexDLL \<Rightarrow> vertexKey \<Rightarrow> NodeD \<Rightarrow> vertexDLL" where
  "setNode dll key n =
     (case key of
        Undefined \<Rightarrow> dll\<lparr>undefinedProperty := Some n\<rparr>
      | Index k \<Rightarrow>
          dll\<lparr>indexed := (indexed dll @ replicate (Suc k - length (indexed dll)) None)[k := Some n]\<rparr>)"

text \<open>\<^verbatim>\<open>if (vertexDLL[v] === undefined) vertexDLL[v] = new LinkedListNode(v)\<close>\<close>

definition ensureNode :: "vertexDLL \<Rightarrow> vertexKey \<Rightarrow> vertexDLL" where
  "ensureNode dll v = (case getNode dll v of None \<Rightarrow> setNode dll v (newNodeD v) | Some n \<Rightarrow> dll)"

text \<open>One half of \<^verbatim>\<open>linkTo\<close>: the first free slot takes the partner, a full node throws.\<close>

definition fillSlot :: "NodeD \<Rightarrow> vertexKey \<Rightarrow> error + NodeD" where
  "fillSlot n partner =
     (if node0 n = None then Inr (n\<lparr>node0 := Some partner\<rparr>)
      else if node1 n = None then Inr (n\<lparr>node1 := Some partner\<rparr>)
      else Inl NodeLinkError)"

text \<open>
  \<^verbatim>\<open>this.linkTo(node)\<close> with \<open>this\<close> the node kept under \<open>a\<close> and \<open>node\<close> the one
  kept under \<open>b\<close>.  The second half reads the store after the first half has written it,
  which matters when both are the same node.
\<close>

definition linkTo :: "vertexDLL \<Rightarrow> vertexKey \<Rightarrow> vertexKey \<Rightarrow> error + vertexDLL" where
  "linkTo dll a b =
     (case getNode dll a of
        None \<Rightarrow> Inl TypeError
      | Some na \<Rightarrow>
          (case fillSlot na b of
             Inl e \<Rightarrow> Inl e
           | Inr na' \<Rightarrow>
               (let dll' = setNode dll a na' in
                case getNode dll' b of
                  None \<Rightarrow> Inl TypeError
                | Some nb \<Rightarrow>
                    (case fillSlot nb a of
                       Inl e \<Rightarrow> Inl e
                     | Inr nb' \<Rightarrow> Inr (setNode dll' b nb')))))"

text \<open>The number of nodes not yet traversed; every round of the walk lowers it.\<close>

definition untraversed :: "vertexDLL \<Rightarrow> nat" where
  "untraversed dll =
     length (filter (\<lambda>x. case x of None \<Rightarrow> False | Some n \<Rightarrow> \<not> traversed n)
       (undefinedProperty dll # indexed dll))"

text \<open>
  The loop of \<^verbatim>\<open>getCycle\<close>:
  \<^verbatim>\<open>while (!node.traversed) { node.traversed = true; cycle.push(node.value);
     if (node.node1.traversed) node = node.node0; else node = node.node1; }\<close>
  Reading \<^verbatim>\<open>traversed\<close> of an \<^verbatim>\<open>undefined\<close> neighbour raises a TypeError.
\<close>

function cycleLoop :: "vertexDLL \<Rightarrow> vertexKey option \<Rightarrow> vertexKey list \<Rightarrow> error + vertexKey list" where
  "cycleLoop dll node cycle =
     (case node of
        None \<Rightarrow> Inl TypeError
      | Some k \<Rightarrow>
          (case getNode dll k of
             None \<Rightarrow> Inl TypeError
           | Some n \<Rightarrow>
               if traversed n then Inr cycle
               else
                 (let dll' = setNode dll k (n\<lparr>traversed := True\<rparr>);
                      cycle' = cycle @ [nodeValue n] in
                  case node1 n of
                    None \<Rightarrow> Inl TypeError
                  | Some k1 \<Rightarrow>
                      (case getNode dll' k1 of
                         None \<Rightarrow> Inl TypeError
                       | Some n1 \<Rightarrow>
                           if traversed n1 then cycleLoop dll' (node0 n) cycle'
                           else cycleLoop dll' (node1 n) cycle'))))"
  by pat_completeness auto
termination
proof (relation "measure (\<lambda>(dll, node, cycle). untraversed dll)")
  show "wf (measure (\<lambda>(dll, node, cycle). untraversed dll))"
    by simp
next
  have drop: "untraversed (setNode dll key (n\<lparr>traversed := True\<rparr>)) < untraversed dll"
    if "getNode dll key = Some n" and "\<not> traversed n" for dll key n
  proof (cases key)
    case Undefined
    with that show ?thesis by (simp add: getNode_def setNode_def untraversed_def)
  next
    case (Index k)
    let ?xs = "indexed dll"
    from that Index have k: "k < length ?xs" and at: "?xs ! k = Some n"
      by (auto simp: getNode_def split: if_splits)
    then have split: "?xs = take k ?xs @ Some n # drop (Suc k) ?xs"
      using id_take_nth_drop [of k ?xs] by simp
    have upd: "indexed (setNode dll key (n\<lparr>traversed := True\<rparr>))
            = take k ?xs @ Some (n\<lparr>traversed := True\<rparr>) # drop (Suc k) ?xs"
      using k Index by (simp add: setNode_def upd_conv_take_nth_drop)
    have same: "undefinedProperty (setNode dll key (n\<lparr>traversed := True\<rparr>)) = undefinedProperty dll"
      using Index by (simp add: setNode_def)
    let ?open = "\<lambda>x. case x of None \<Rightarrow> False | Some n \<Rightarrow> \<not> traversed n"
    have "length (filter ?open ?xs)
            = length (filter ?open (take k ?xs)) + Suc (length (filter ?open (drop (Suc k) ?xs)))"
      using that(2) by (subst split) simp
    then show ?thesis
      by (simp add: untraversed_def upd same)
  qed
  {
    fix dll :: vertexDLL and node cycle k n dll' cycle' k1 n1
    assume "getNode dll k = Some n" "\<not> traversed n" "dll' = setNode dll k (n\<lparr>traversed := True\<rparr>)"
    then show "((dll', node0 n, cycle'), dll, node, cycle) \<in> measure (\<lambda>(dll, node, cycle). untraversed dll)"
      using drop by simp
  }
  {
    fix dll :: vertexDLL and node cycle k n dll' cycle' k1 n1
    assume "getNode dll k = Some n" "\<not> traversed n" "dll' = setNode dll k (n\<lparr>traversed := True\<rparr>)"
    then show "((dll', node1 n, cycle'), dll, node, cycle) \<in> measure (\<lambda>(dll, node, cycle). untraversed dll)"
      using drop by simp
  }
qed

text \<open>
  \<^verbatim>\<open>getCycle\<close> on the node kept under \<open>start\<close>: the walk begins at \<^verbatim>\<open>this.node0\<close>
  after \<open>this\<close> has been marked.
\<close>

definition getCycle :: "vertexDLL \<Rightarrow> vertexKey \<Rightarrow> error + vertexKey list" where
  "getCycle dll start =
     (case getNode dll start of
        None \<Rightarrow> Inl TypeError
      | Some s \<Rightarrow> cycleLoop (setNode dll start (s\<lparr>traversed := True\<rparr>)) (node0 s) [nodeValue s])"

text \<open>
  The loop of \<^verbatim>\<open>faceToVertices\<close> over the edge indices of the face.  An edge index
  with no edge behind it raises (\<^verbatim>\<open>edge[0]\<close> of \<^verbatim>\<open>undefined\<close>).
\<close>

fun linkEdges :: "nat list list \<Rightarrow> nat list \<Rightarrow> vertexDLL \<Rightarrow> error + vertexDLL" where
  "linkEdges edges [] dll = Inr dll"
| "linkEdges edges (j # js) dll =
     (case nthOpt edges j of
        None \<Rightarrow> Inl TypeError
      | Some edge \<Rightarrow>
          (case linkTo (ensureNode (ensureNode dll (entry edge 0)) (entry edge 1))
                  (entry edge 0) (entry edge 1) of
             Inl e \<Rightarrow> Inl e
           | Inr dll' \<Rightarrow> linkEdges edges js dll'))"

text \<open>
  \<^verbatim>\<open>faceToVertices(i)\<close>.  The guard throws the RangeError when there is no level 2 or
  no face \<open>i\<close>.  The start of the walk is the first entry of the face's first edge;
  for a face with no edge, \<^verbatim>\<open>elementList[1][undefined][0]\<close> raises.
\<close>

definition faceToVertices :: "PolytopeC \<Rightarrow> int \<Rightarrow> error + vertexKey list" where
  "faceToVertices P i =
     (case higherLevel (elementList P) 2 of
        None \<Rightarrow> Inl RangeError
      | Some faces \<Rightarrow>
          if i < 0 \<or> int (length faces) \<le> i then Inl RangeError
          else
            (case higherLevel (elementList P) 1 of
               None \<Rightarrow> Inl TypeError
             | Some edges \<Rightarrow>
                 (let face = faces ! nat i in
                  case linkEdges edges face emptyDLL of
                    Inl e \<Rightarrow> Inl e
                  | Inr dll \<Rightarrow>
                      (case face of
                         [] \<Rightarrow> Inl TypeError
                       | j # _ \<Rightarrow>
                           (case nthOpt edges j of
                              None \<Rightarrow> Inl TypeError
                            | Some edge \<Rightarrow> getCycle dll (entry edge 0))))))"


definition isTraversalOf :: "nat list \<Rightarrow> nat list list \<Rightarrow> bool" where
  "isTraversalOf cyc es =
     list_all (\<lambda>k. list_ex (\<lambda>e. set e = {cyc ! k, cyc ! (Suc k mod length cyc)}) es)
       [0..<length cyc]"



text \<open>
  The boundaries of the square face: the four edges \<open>(0,1), (1,2), (2,3), (3,0)\<close> in
  every order (\<open>orderings\<close>) and every edge with its endpoints either way round
  (\<open>orientations\<close>), 384 lists in all.
\<close>

fun interleave :: "'a \<Rightarrow> 'a list \<Rightarrow> 'a list list" where
  "interleave x [] = [[x]]"
| "interleave x (y # ys) = (x # y # ys) # map (\<lambda>zs. y # zs) (interleave x ys)"

fun orderings :: "'a list \<Rightarrow> 'a list list" where
  "orderings [] = [[]]"
| "orderings (x # xs) = concat (map (interleave x) (orderings xs))"

fun orientations :: "nat list list \<Rightarrow> nat list list list" where
  "orientations [] = [[]]"
| "orientations (e # es) = concat (map (\<lambda>rest. [e # rest, rev e # rest]) (orientations es))"

definition squareEdges :: "nat list list" where
  "squareEdges = [[0, 1], [1, 2], [2, 3], [3, 0]]"

definition squareBoundaries :: "nat list list list" where
  "squareBoundaries = concat (map orientations (orderings squareEdges))"

text \<open>
  The linking loop and the walk as functions of the list of the face's edges, for the
  proofs: \<open>linkEdges\<close> with the edge indices already looked up.
\<close>

fun linkEdgeList :: "nat list list \<Rightarrow> vertexDLL \<Rightarrow> error + vertexDLL" where
  "linkEdgeList [] dll = Inr dll"
| "linkEdgeList (edge # es) dll =
     (case linkTo (ensureNode (ensureNode dll (entry edge 0)) (entry edge 1))
             (entry edge 0) (entry edge 1) of
        Inl e \<Rightarrow> Inl e
      | Inr dll' \<Rightarrow> linkEdgeList es dll')"

definition cycleOfEdges :: "nat list list \<Rightarrow> error + vertexKey list" where
  "cycleOfEdges es =
     (case linkEdgeList es emptyDLL of
        Inl e \<Rightarrow> Inl e
      | Inr dll \<Rightarrow>
          (case es of
             [] \<Rightarrow> Inl TypeError
           | edge # _ \<Rightarrow> getCycle dll (entry edge 0)))"

text \<open>The vertex indices of a result without \<^verbatim>\<open>undefined\<close> in it.\<close>

fun indexOf :: "vertexKey \<Rightarrow> nat" where
  "indexOf (Index k) = k"
| "indexOf Undefined = 0"

text \<open>The result is a walk round the square: four different vertices, neighbours joined by edges.\<close>

definition squareTraversal :: "error + vertexKey list \<Rightarrow> bool" where
  "squareTraversal r =
     (case r of
        Inl e \<Rightarrow> False
      | Inr keys \<Rightarrow>
          list_all (\<lambda>key. key \<noteq> Undefined) keys
          \<and> (let cyc = map indexOf keys in
               length cyc = 4 \<and> distinct cyc \<and> list_all (\<lambda>v. v < 4) cyc
               \<and> isTraversalOf cyc squareEdges))"

text \<open>
  Polytopes for the examples, each as the constructor builds it from its element list:
  a segment (no 2-faces); a face with three edges at vertex 0; a face whose two edges
  form the open path \<open>0 - 1 - 2\<close>; a face bounded by two disjoint triangles; a face
  whose two edges both join the vertices 0 and 1.
\<close>

definition segmentC :: PolytopeC where
  "segmentC = \<lparr>construction = CNPlain 2 1, dimensions = 1, spaceDimensions = 2,
                elementList = Levels [Point [0, 0], Point [1, 0]] [[[0, 1]]]\<rparr>"

definition starC :: PolytopeC where
  "starC = \<lparr>construction = CNPlain 3 2, dimensions = 2, spaceDimensions = 2,
             elementList = Levels [Point [0, 0], Point [1, 0], Point [0, 1], Point [- 1, 0]]
                             [[[0, 1], [0, 2], [0, 3]], [[0, 1, 2]]]\<rparr>"

definition openPathC :: PolytopeC where
  "openPathC = \<lparr>construction = CNPlain 2 2, dimensions = 2, spaceDimensions = 2,
                 elementList = Levels [Point [0, 0], Point [1, 0], Point [1, 1]]
                                 [[[0, 1], [1, 2]], [[0, 1]]]\<rparr>"

definition twoTrianglesC :: PolytopeC where
  "twoTrianglesC = \<lparr>construction = CNPlain 6 2, dimensions = 2, spaceDimensions = 2,
                     elementList = Levels [Point [0, 0], Point [1, 0], Point [0, 1],
                                           Point [3, 0], Point [4, 0], Point [3, 1]]
                                     [[[0, 1], [1, 2], [2, 0], [3, 4], [4, 5], [5, 3]],
                                      [[0, 1, 2, 3, 4, 5]]]\<rparr>"

definition doubledEdgeC :: PolytopeC where
  "doubledEdgeC = \<lparr>construction = CNPlain 2 2, dimensions = 2, spaceDimensions = 2,
                    elementList = Levels [Point [0, 0], Point [1, 0]] [[[0, 1], [0, 1]], [[0, 1]]]\<rparr>"

text \<open>The store after the single edge \<open>(0,1)\<close> has been linked: each node has one link.\<close>

definition oneLinkDLL :: vertexDLL where
  "oneLinkDLL =
     \<lparr>indexed = [Some \<lparr>nodeValue = Index 0, node0 = Some (Index 1), node1 = None, traversed = False\<rparr>,
                 Some \<lparr>nodeValue = Index 1, node0 = Some (Index 0), node1 = None, traversed = False\<rparr>],
      undefinedProperty = None\<rparr>"
section \<open>The symmetric polytope \<^verbatim>\<open>PolytopeS\<close>\<close>

subsection \<open>Flags, groups and flag maps\<close>

text \<open>
  Modelled from the spec: the classes \<^verbatim>\<open>Flag\<close>, \<^verbatim>\<open>FlagClass\<close> and
  \<^verbatim>\<open>ConcreteGroup\<close>, which \<^verbatim>\<open>types.ts\<close> imports and which are not among the
  sources at hand.  A flag is a class number and a group element (the domain).  A flag
  class gives, for every generator, an element change: a new class number and an action
  on the domain.  The group is a parameter: its identity, its comparator with the
  results \<open>-1\<close>, \<open>0\<close>, \<open>1\<close>, the enumeration of its elements, and the matrix by
  which an element acts on points (\<^verbatim>\<open>flag.domain.matrix\<close>).
\<close>

datatype 'g Flag = Flag (classNumber: nat) (domain: 'g)

record 'g ConcreteGroup =
  identity :: 'g
  compare :: "'g \<Rightarrow> 'g \<Rightarrow> int"
  enumerateElements :: "'g list"
  matrix :: "'g \<Rightarrow> real list list"

record 'g ElementChange =
  newClassNumber :: nat
  applyEC :: "'g ConcreteGroup \<Rightarrow> 'g \<Rightarrow> 'g"

record 'g FlagClass =
  elementChanges :: "'g ElementChange list"

text \<open>
  The fields of \<^verbatim>\<open>PolytopeS\<close> that the conversion reads.  The private field
  \<^verbatim>\<open>identitySimplifier\<close> holds a reference to a flag map; \<^verbatim>\<open>toPolytopeC\<close> sets it to a
  new map first of all, which is the object at index 0 of the store below.
\<close>

record 'g PolytopeS =
  symmetries :: "'g ConcreteGroup"
  flagClasses :: "'g FlagClass list"
  verticesS :: "Point list"
  dimensionsS :: nat

text \<open>
  Modelled from the spec: the class \<^verbatim>\<open>FlagMap\<close>, not among the sources at hand
  either.  It is a dictionary keyed by flags, with \<^verbatim>\<open>get\<close> (\<open>map_of\<close>, \<open>None\<close> for
  \<^verbatim>\<open>undefined\<close>) and \<^verbatim>\<open>set\<close> (\<open>AList.update\<close>);
  \<^verbatim>\<open>for (const key in map.dictionary)\<close> visits the keys in the order of their first
  insertion, a key that a round of the loop adds is not visited by that loop, and
  \<^verbatim>\<open>get\<close> accepts the keys so visited.  Two flags are the same key exactly when they
  are equal as values.
\<close>

type_synonym ('g, 'v) FlagMap = "('g Flag \<times> 'v) list"

text \<open>
  \<^verbatim>\<open>modifySimplifier\<close> starts with \<^verbatim>\<open>const newSimplifier = simplifier1\<close>: both names
  denote the same object, so every \<^verbatim>\<open>newSimplifier.set\<close> changes the simplifier that
  was passed in, and with it every other reference to that object.  The flag maps
  therefore live in a store, a list of maps; a simplifier is an index into it.
\<close>

type_synonym 'g store = "('g, 'g Flag) FlagMap list"

text \<open>A computation that may raise, or may not return (\<open>None\<close>).\<close>

definition bindR :: "(error + 'a) option \<Rightarrow> ('a \<Rightarrow> (error + 'b) option) \<Rightarrow> (error + 'b) option" where
  "bindR m f = (case m of None \<Rightarrow> None | Some (Inl e) \<Rightarrow> Some (Inl e) | Some (Inr x) \<Rightarrow> f x)"

subsection \<open>\<^verbatim>\<open>moveFlag\<close>, \<^verbatim>\<open>compareFlags\<close>, \<^verbatim>\<open>equalFlags\<close>\<close>

definition moveFlag :: "'g PolytopeS \<Rightarrow> 'g Flag \<Rightarrow> nat \<Rightarrow> error + 'g Flag" where
  "moveFlag P flag generator =
     (case nthOpt (flagClasses P) (classNumber flag) of
        None \<Rightarrow> Inl TypeError
      | Some fc \<Rightarrow>
          (case nthOpt (elementChanges fc) generator of
             None \<Rightarrow> Inl TypeError
           | Some ec \<Rightarrow> Inr (Flag (newClassNumber ec) (applyEC ec (symmetries P) (domain flag)))))"

definition compareFlags :: "'g PolytopeS \<Rightarrow> 'g Flag \<Rightarrow> 'g Flag \<Rightarrow> int" where
  "compareFlags P flag1 flag2 =
     (if classNumber flag1 < classNumber flag2 then - 1
      else if classNumber flag1 > classNumber flag2 then 1
      else compare (symmetries P) (domain flag1) (domain flag2))"

definition equalFlags :: "'g PolytopeS \<Rightarrow> 'g Flag \<Rightarrow> 'g Flag \<Rightarrow> bool" where
  "equalFlags P flag1 flag2 = (compareFlags P flag1 flag2 = 0)"

subsection \<open>\<^verbatim>\<open>modifySimplifier\<close>\<close>

text \<open>
  The three loops of the shape
  \<^verbatim>\<open>while (!this.equalFlags(oldElem, elem)) { oldElem = elem; elem = newSimplifier.get(elem); }\<close>
  The loop runs for ever on a map with a cycle, so not returning is the value \<open>None\<close>.
  When \<^verbatim>\<open>get\<close> returns \<^verbatim>\<open>undefined\<close>, the next test reads \<^verbatim>\<open>flag2.classNumber\<close> of
  \<^verbatim>\<open>undefined\<close> and raises.
\<close>

partial_function (option) resolve ::
  "'g PolytopeS \<Rightarrow> ('g, 'g Flag) FlagMap \<Rightarrow> 'g Flag \<Rightarrow> 'g Flag option \<Rightarrow> (error + 'g Flag) option"
where
  "resolve P m oldElem elem =
     (case elem of
        None \<Rightarrow> Some (Inl TypeError)
      | Some e \<Rightarrow> if equalFlags P oldElem e then Some (Inr e) else resolve P m e (map_of m e))"

declare resolve.simps [code]

text \<open>The second argument of \<^verbatim>\<open>modifySimplifier\<close>: a generator number or a simplifier.\<close>

datatype simplifier2 = Generator nat | Simplifier nat

text \<open>
  The head of the loop body: \<^verbatim>\<open>oldRightElem\<close>, \<^verbatim>\<open>leftElem\<close> and \<^verbatim>\<open>rightElem\<close> before
  the two \<^verbatim>\<open>while\<close> loops (\<^verbatim>\<open>oldLeftElem\<close> is always the flag of class 0 at the
  identity).  When extending, \<^verbatim>\<open>leftElem\<close> is read from \<^verbatim>\<open>this.identitySimplifier\<close>,
  the object at index \<open>idS\<close>.
\<close>

definition startElems ::
  "'g PolytopeS \<Rightarrow> 'g store \<Rightarrow> nat \<Rightarrow> nat \<Rightarrow> simplifier2 \<Rightarrow> 'g Flag
     \<Rightarrow> error + ('g Flag \<times> 'g Flag option \<times> 'g Flag option)" where
  "startElems P heap idS s1 s2 key =
     (let oldLeftElem = Flag 0 (identity (symmetries P)) in
      case s2 of
        Generator generator \<Rightarrow>
          (case moveFlag P oldLeftElem generator of
             Inl e \<Rightarrow> Inl e
           | Inr oldRightElem \<Rightarrow>
               (case map_of (heap ! idS) key of
                  None \<Rightarrow> Inl TypeError
                | Some leftElem \<Rightarrow>
                    (case moveFlag P leftElem generator of
                       Inl e \<Rightarrow> Inl e
                     | Inr rightElem \<Rightarrow> Inr (oldRightElem, Some leftElem, Some rightElem))))
      | Simplifier a2 \<Rightarrow>
          Inr (oldLeftElem, map_of (heap ! s1) key, map_of (heap ! a2) key))"

text \<open>One round of the first \<^verbatim>\<open>for\<close> loop; the writes go to the object at \<open>s1\<close>.\<close>

definition unionStep ::
  "'g PolytopeS \<Rightarrow> nat \<Rightarrow> nat \<Rightarrow> simplifier2 \<Rightarrow> 'g store \<Rightarrow> 'g Flag \<Rightarrow> (error + 'g store) option" where
  "unionStep P idS s1 s2 heap key =
     (case startElems P heap idS s1 s2 key of
        Inl e \<Rightarrow> Some (Inl e)
      | Inr (oldRightElem, leftElem0, rightElem0) \<Rightarrow>
          bindR (resolve P (heap ! s1) (Flag 0 (identity (symmetries P))) leftElem0) (\<lambda>leftElem.
          bindR (resolve P (heap ! s1) oldRightElem rightElem0) (\<lambda>rightElem.
            let order = compareFlags P leftElem rightElem in
            if order = 1 then Some (Inr (heap[s1 := AList.update leftElem rightElem (heap ! s1)]))
            else if order = - 1 then Some (Inr (heap[s1 := AList.update rightElem leftElem (heap ! s1)]))
            else Some (Inr heap))))"

fun unionLoop ::
  "'g PolytopeS \<Rightarrow> nat \<Rightarrow> nat \<Rightarrow> simplifier2 \<Rightarrow> 'g store \<Rightarrow> 'g Flag list \<Rightarrow> (error + 'g store) option" where
  "unionLoop P idS s1 s2 heap [] = Some (Inr heap)"
| "unionLoop P idS s1 s2 heap (key # keys) =
     bindR (unionStep P idS s1 s2 heap key) (\<lambda>heap'. unionLoop P idS s1 s2 heap' keys)"

text \<open>The clean-up pass, which fills the fresh map \<^verbatim>\<open>betterSimplifier\<close>.\<close>

fun cleanUp ::
  "'g PolytopeS \<Rightarrow> ('g, 'g Flag) FlagMap \<Rightarrow> ('g, 'g Flag) FlagMap \<Rightarrow> 'g Flag list
     \<Rightarrow> (error + ('g, 'g Flag) FlagMap) option" where
  "cleanUp P newSimplifier betterSimplifier [] = Some (Inr betterSimplifier)"
| "cleanUp P newSimplifier betterSimplifier (key # keys) =
     bindR (resolve P newSimplifier (Flag 0 (identity (symmetries P))) (map_of newSimplifier key))
       (\<lambda>elem. cleanUp P newSimplifier (AList.update key elem betterSimplifier) keys)"

text \<open>
  \<^verbatim>\<open>modifySimplifier\<close> returns the store, in which the object at \<open>s1\<close> has been changed
  and the new object \<^verbatim>\<open>betterSimplifier\<close> has been allocated, and the index of the
  latter.  Both \<^verbatim>\<open>for\<close> loops run over the keys of the object at \<open>s1\<close>.
\<close>

definition modifySimplifier ::
  "'g PolytopeS \<Rightarrow> nat \<Rightarrow> 'g store \<Rightarrow> nat \<Rightarrow> simplifier2 \<Rightarrow> (error + 'g store \<times> nat) option" where
  "modifySimplifier P idS heap s1 s2 =
     bindR (unionLoop P idS s1 s2 heap (map fst (heap ! s1))) (\<lambda>heap'.
     bindR (cleanUp P (heap' ! s1) [] (map fst (heap' ! s1))) (\<lambda>betterSimplifier.
       Some (Inr (heap' @ [betterSimplifier], length heap'))))"

definition extendSimplifier ::
  "'g PolytopeS \<Rightarrow> nat \<Rightarrow> 'g store \<Rightarrow> nat \<Rightarrow> nat \<Rightarrow> (error + 'g store \<times> nat) option" where
  "extendSimplifier P idS heap simplifier1 generator =
     modifySimplifier P idS heap simplifier1 (Generator generator)"

definition mergeSimplifiers ::
  "'g PolytopeS \<Rightarrow> nat \<Rightarrow> 'g store \<Rightarrow> nat \<Rightarrow> nat \<Rightarrow> (error + 'g store \<times> nat) option" where
  "mergeSimplifiers P idS heap simplifier1 simplifier2 =
     modifySimplifier P idS heap simplifier1 (Simplifier simplifier2)"

subsection \<open>\<^verbatim>\<open>toPolytopeC\<close>: the simplifiers\<close>

text \<open>The flags in the order of the double loop over domains and flag classes.\<close>

definition allFlags :: "'g PolytopeS \<Rightarrow> 'g Flag list" where
  "allFlags P =
     concat (map (\<lambda>d. map (\<lambda>j. Flag j d) [0..<length (flagClasses P)])
       (enumerateElements (symmetries P)))"

definition identitySimplifier :: "'g PolytopeS \<Rightarrow> ('g, 'g Flag) FlagMap" where
  "identitySimplifier P = foldl (\<lambda>m flag. AList.update flag flag m) [] (allFlags P)"

text \<open>
  The calls of \<^verbatim>\<open>console.log\<close> and of \<^verbatim>\<open>simplifierCosets\<close> (which only counts, for the
  log) are left out.  The identity simplifier is the object at index 0 of the store.  The ascending chain
  extends the last simplifier by the generators \<open>0, 1, \<dots>\<close>; its first call has the
  identity simplifier itself as \<^verbatim>\<open>simplifier1\<close>.
\<close>

fun ascending ::
  "'g PolytopeS \<Rightarrow> nat list \<Rightarrow> 'g store \<Rightarrow> nat list \<Rightarrow> nat \<Rightarrow> (error + 'g store \<times> nat list) option" where
  "ascending P [] heap ascendingSimplifiers lastSimplifier = Some (Inr (heap, ascendingSimplifiers))"
| "ascending P (i # is) heap ascendingSimplifiers lastSimplifier =
     bindR (extendSimplifier P 0 heap lastSimplifier i) (\<lambda>(heap', s).
       ascending P is heap' (ascendingSimplifiers @ [s]) s)"

fun descending ::
  "'g PolytopeS \<Rightarrow> nat list \<Rightarrow> 'g store \<Rightarrow> nat list \<Rightarrow> (error + 'g store \<times> nat list) option" where
  "descending P [] heap descendingSimplifiers = Some (Inr (heap, descendingSimplifiers))"
| "descending P (i # is) heap descendingSimplifiers =
     bindR (extendSimplifier P 0 heap (last descendingSimplifiers) (dimensionsS P - (i + 1)))
       (\<lambda>(heap', s). descending P is heap' (descendingSimplifiers @ [s]))"

text \<open>
  The loops that build the element simplifiers (\<open>off = 1\<close>) and the intersection
  simplifiers (\<open>off = 2\<close>):
  \<^verbatim>\<open>mergeSimplifiers(ascendingSimplifiers[i], descendingSimplifiers[dimensions - (i + off)])\<close>.
\<close>

fun merges ::
  "'g PolytopeS \<Rightarrow> nat \<Rightarrow> nat list \<Rightarrow> nat list \<Rightarrow> nat list \<Rightarrow> 'g store \<Rightarrow> nat list
     \<Rightarrow> (error + 'g store \<times> nat list) option" where
  "merges P off asc desc [] heap simplifiers = Some (Inr (heap, simplifiers))"
| "merges P off asc desc (i # is) heap simplifiers =
     bindR (mergeSimplifiers P 0 heap (asc ! i) (desc ! (dimensionsS P - (i + off))))
       (\<lambda>(heap', s). merges P off asc desc is heap' (simplifiers @ [s]))"

text \<open>
  The store and the two arrays of simplifiers when the four loops are through.  The last
  intersection simplifier is \<^verbatim>\<open>ascendingSimplifiers[dimensions - 1]\<close>, which is
  \<^verbatim>\<open>undefined\<close> for a polytope of rank 0.
\<close>

record 'g simplifiers =
  storeOf :: "'g store"
  elementSimplifiers :: "nat list"
  intersectionSimplifiers :: "nat option list"

definition buildSimplifiers :: "'g PolytopeS \<Rightarrow> (error + 'g simplifiers) option" where
  "buildSimplifiers P =
     (let n = dimensionsS P in
      bindR (ascending P [0..<n] [identitySimplifier P] [0] 0) (\<lambda>(heap1, asc).
      bindR (descending P [0..<n] heap1 [0]) (\<lambda>(heap2, desc).
      bindR (merges P 1 asc desc [0..<n] heap2 []) (\<lambda>(heap3, elems).
      bindR (merges P 2 asc desc [0..<n - 1] heap3 []) (\<lambda>(heap4, inters).
        Some (Inr \<lparr>storeOf = heap4, elementSimplifiers = elems @ [asc ! n],
                   intersectionSimplifiers =
                     map Some inters @ [if n = 0 then None else Some (asc ! (n - 1))]\<rparr>))))))"

subsection \<open>\<^verbatim>\<open>toPolytopeC\<close>: vertices, locations, higher elements\<close>

text \<open>Modelled from the spec: \<^verbatim>\<open>Point.applyMatrix\<close>, the product of a matrix and a point.\<close>

definition applyMatrix :: "Point \<Rightarrow> real list list \<Rightarrow> Point" where
  "applyMatrix p M =
     Point (map (\<lambda>row. sum_list (map (\<lambda>(a, x). a * x) (zip row (coordinates p)))) M)"

fun sumMap :: "('a \<Rightarrow> error + 'b) \<Rightarrow> 'a list \<Rightarrow> error + 'b list" where
  "sumMap f [] = Inr []"
| "sumMap f (x # xs) =
     (case f x of
        Inl e \<Rightarrow> Inl e
      | Inr y \<Rightarrow> (case sumMap f xs of Inl e \<Rightarrow> Inl e | Inr ys \<Rightarrow> Inr (y # ys)))"

text \<open>\<^verbatim>\<open>this.equalFlags(flag, simplifier.get(flag))\<close>; it raises when the flag is no key.\<close>

definition isRepresentative :: "'g PolytopeS \<Rightarrow> ('g, 'g Flag) FlagMap \<Rightarrow> 'g Flag \<Rightarrow> error + bool" where
  "isRepresentative P simplifier flag =
     (case map_of simplifier flag of None \<Rightarrow> Inl TypeError | Some r \<Rightarrow> Inr (equalFlags P flag r))"

text \<open>The flags that pass the test, in scanning order.\<close>

fun representatives ::
  "'g PolytopeS \<Rightarrow> ('g, 'g Flag) FlagMap \<Rightarrow> 'g Flag list \<Rightarrow> error + 'g Flag list" where
  "representatives P simplifier [] = Inr []"
| "representatives P simplifier (flag # flags) =
     (case isRepresentative P simplifier flag of
        Inl e \<Rightarrow> Inl e
      | Inr b \<Rightarrow>
          (case representatives P simplifier flags of
             Inl e \<Rightarrow> Inl e
           | Inr reps \<Rightarrow> Inr (if b then flag # reps else reps)))"

definition vertexOf :: "'g PolytopeS \<Rightarrow> 'g Flag \<Rightarrow> error + Point" where
  "vertexOf P flag =
     (case nthOpt (verticesS P) (classNumber flag) of
        None \<Rightarrow> Inl TypeError
      | Some v \<Rightarrow> Inr (applyMatrix v (matrix (symmetries P) (domain flag))))"

text \<open>\<^verbatim>\<open>locationsRow.set(flag, nextID++)\<close> over the representatives.\<close>

fun numberFrom :: "nat \<Rightarrow> 'a list \<Rightarrow> ('a \<times> nat) list \<Rightarrow> ('a \<times> nat) list" where
  "numberFrom nextID [] row = row"
| "numberFrom nextID (x # xs) row = numberFrom (Suc nextID) xs (AList.update x nextID row)"

definition locationsRow ::
  "'g PolytopeS \<Rightarrow> ('g, 'g Flag) FlagMap \<Rightarrow> error + ('g, nat) FlagMap \<times> nat" where
  "locationsRow P simplifier =
     (case representatives P simplifier (allFlags P) of
        Inl e \<Rightarrow> Inl e
      | Inr reps \<Rightarrow> Inr (numberFrom 0 reps [], length reps))"

text \<open>
  \<^verbatim>\<open>elements[rightID].push(leftID)\<close>.  An \<^verbatim>\<open>undefined\<close> \<^verbatim>\<open>rightID\<close> raises; an
  \<^verbatim>\<open>undefined\<close> \<^verbatim>\<open>leftID\<close> would be pushed as it is, which is outside the model.
\<close>

definition pushInto :: "nat list list \<Rightarrow> nat option \<Rightarrow> nat option \<Rightarrow> error + nat list list" where
  "pushInto elements rightID leftID =
     (case rightID of
        None \<Rightarrow> Inl TypeError
      | Some r \<Rightarrow>
          if r < length elements then
            (case leftID of
               None \<Rightarrow> Inl OutOfModel
             | Some l \<Rightarrow> Inr (elements[r := elements ! r @ [l]]))
          else Inl TypeError)"

text \<open>The loop over all flags that fills the elements of one rank.\<close>

fun incidences ::
  "'g PolytopeS \<Rightarrow> ('g, 'g Flag) FlagMap \<Rightarrow> ('g, 'g Flag) FlagMap \<Rightarrow> ('g, 'g Flag) FlagMap
     \<Rightarrow> ('g, nat) FlagMap \<Rightarrow> ('g, nat) FlagMap \<Rightarrow> nat list list \<Rightarrow> 'g Flag list
     \<Rightarrow> error + nat list list" where
  "incidences P interS leftS rightS leftLoc rightLoc elements [] = Inr elements"
| "incidences P interS leftS rightS leftLoc rightLoc elements (flag # flags) =
     (case isRepresentative P interS flag of
        Inl e \<Rightarrow> Inl e
      | Inr False \<Rightarrow> incidences P interS leftS rightS leftLoc rightLoc elements flags
      | Inr True \<Rightarrow>
          (case (map_of leftS flag, map_of rightS flag) of
             (Some leftFlag, Some rightFlag) \<Rightarrow>
               (case pushInto elements (map_of rightLoc rightFlag) (map_of leftLoc leftFlag) of
                  Inl e \<Rightarrow> Inl e
                | Inr elements' \<Rightarrow>
                    incidences P interS leftS rightS leftLoc rightLoc elements' flags)
           | _ \<Rightarrow> Inl TypeError))"

definition higherElements ::
  "'g PolytopeS \<Rightarrow> 'g simplifiers \<Rightarrow> (('g, nat) FlagMap \<times> nat) list \<Rightarrow> nat \<Rightarrow> error + nat list list" where
  "higherElements P S locations i =
     (case intersectionSimplifiers S ! (i - 1) of
        None \<Rightarrow> Inl TypeError
      | Some interS \<Rightarrow>
          incidences P (storeOf S ! interS)
            (storeOf S ! (elementSimplifiers S ! (i - 1))) (storeOf S ! (elementSimplifiers S ! i))
            (fst (locations ! (i - 1))) (fst (locations ! i))
            (replicate (snd (locations ! i)) []) (allFlags P))"

definition toElementList :: "'g PolytopeS \<Rightarrow> 'g simplifiers \<Rightarrow> error + ElementList" where
  "toElementList P S =
     (case representatives P (storeOf S ! (elementSimplifiers S ! 0)) (allFlags P) of
        Inl e \<Rightarrow> Inl e
      | Inr vertexFlags \<Rightarrow>
     (case sumMap (vertexOf P) vertexFlags of
        Inl e \<Rightarrow> Inl e
      | Inr vertices \<Rightarrow>
     (case sumMap (\<lambda>i. locationsRow P (storeOf S ! (elementSimplifiers S ! i)))
             [0..<dimensionsS P + 1] of
        Inl e \<Rightarrow> Inl e
      | Inr locations \<Rightarrow>
     (case sumMap (higherElements P S locations) [1..<dimensionsS P + 1] of
        Inl e \<Rightarrow> Inl e
      | Inr higher \<Rightarrow> Inr (Levels vertices higher)))))"

text \<open>\<^verbatim>\<open>toPolytopeC\<close> ends with \<^verbatim>\<open>new PolytopeC(elementList)\<close>, without a construction node.\<close>

definition toPolytopeC :: "'g PolytopeS \<Rightarrow> (error + PolytopeC) option" where
  "toPolytopeC P =
     bindR (buildSimplifiers P) (\<lambda>S.
       case toElementList P S of
         Inl e \<Rightarrow> Some (Inl e)
       | Inr el \<Rightarrow> Some (newPolytopeC el None))"

section \<open>A concrete symmetric polytope: the square\<close>

text \<open>
  The symmetry group of the square with the vertices \<open>(1,0), (0,1), (-1,0), (0,-1)\<close>,
  of order 8.  The element \<open>(k, s)\<close> is the rotation by \<open>k\<close> quarter turns after the
  reflection in the first axis when \<open>s\<close> holds.  The comparator orders the elements
  by their position in a given list.
\<close>

datatype quarter = Q0 | Q1 | Q2 | Q3

type_synonym d4 = "quarter \<times> bool"

fun turns :: "quarter \<Rightarrow> nat" where
  "turns Q0 = 0" | "turns Q1 = 1" | "turns Q2 = 2" | "turns Q3 = 3"

definition quarterOf :: "nat \<Rightarrow> quarter" where
  "quarterOf n =
     (if n mod 4 = 0 then Q0 else if n mod 4 = 1 then Q1 else if n mod 4 = 2 then Q2 else Q3)"

definition d4mul :: "d4 \<Rightarrow> d4 \<Rightarrow> d4" where
  "d4mul a b =
     (if snd a then (quarterOf (turns (fst a) + 4 - turns (fst b)), \<not> snd b)
      else (quarterOf (turns (fst a) + turns (fst b)), snd b))"

fun indexIn :: "'a list \<Rightarrow> 'a \<Rightarrow> nat" where
  "indexIn [] x = 0"
| "indexIn (y # ys) x = (if x = y then 0 else Suc (indexIn ys x))"

definition compareBy :: "('a \<Rightarrow> nat) \<Rightarrow> 'a \<Rightarrow> 'a \<Rightarrow> int" where
  "compareBy f a b = (if f a < f b then - 1 else if f a > f b then 1 else 0)"

definition d4matrix :: "d4 \<Rightarrow> real list list" where
  "d4matrix a =
     (let c = (if fst a = Q0 then 1 else if fst a = Q2 then - 1 else 0);
          s = (if fst a = Q1 then 1 else if fst a = Q3 then - 1 else 0)
      in if snd a then [[c, s], [s, - c]] else [[c, - s], [s, c]])"

definition d4elements :: "d4 list" where
  "d4elements =
     [(Q0, False), (Q1, False), (Q2, False), (Q3, False),
      (Q0, True), (Q1, True), (Q2, True), (Q3, True)]"

definition d4group :: "d4 list \<Rightarrow> d4 list \<Rightarrow> d4 ConcreteGroup" where
  "d4group enumeration order =
     \<lparr>identity = (Q0, False), compare = compareBy (indexIn order),
      enumerateElements = enumeration, matrix = d4matrix\<rparr>"

text \<open>
  One flag class.  Generator 0 changes the vertex of a flag (the reflection \<open>(Q1, True)\<close>
  that swaps \<open>(1,0)\<close> and \<open>(0,1)\<close>), generator 1 changes its edge and keeps its vertex
  (the reflection \<open>(Q0, True)\<close>, which fixes the seed vertex \<open>(1,0)\<close>).
\<close>

definition squareOf :: "d4 list \<Rightarrow> d4 list \<Rightarrow> d4 PolytopeS" where
  "squareOf enumeration order =
     \<lparr>symmetries = d4group enumeration order,
      flagClasses =
        [\<lparr>elementChanges =
            [\<lparr>newClassNumber = 0, applyEC = (\<lambda>G d. d4mul d (Q1, True))\<rparr>,
             \<lparr>newClassNumber = 0, applyEC = (\<lambda>G d. d4mul d (Q0, True))\<rparr>]\<rparr>],
      verticesS = [Point [1, 0]],
      dimensionsS = 2\<rparr>"

text \<open>The elements enumerated and ordered alike, with the identity as the least element.\<close>

definition squareS :: "d4 PolytopeS" where
  "squareS = squareOf d4elements d4elements"

text \<open>Another order in which the identity is the least element.\<close>

definition orderA :: "d4 list" where
  "orderA =
     [(Q0, False), (Q1, False), (Q1, True), (Q2, True),
      (Q3, False), (Q0, True), (Q3, True), (Q2, False)]"

text \<open>An order in which one rotation precedes the identity.\<close>

definition orderB :: "d4 list" where
  "orderB =
     [(Q1, False), (Q0, False), (Q2, False), (Q3, False),
      (Q0, True), (Q1, True), (Q2, True), (Q3, True)]"

text \<open>An enumeration that does not begin with the identity, and an order to go with it.\<close>

definition enumerationC :: "d4 list" where
  "enumerationC =
     [(Q1, False), (Q2, True), (Q2, False), (Q0, True),
      (Q3, True), (Q1, True), (Q0, False), (Q3, False)]"

definition orderC :: "d4 list" where
  "orderC =
     [(Q0, False), (Q3, True), (Q2, True), (Q1, False),
      (Q2, False), (Q0, True), (Q1, True), (Q3, False)]"

text \<open>
  The simplifier \<^verbatim>\<open>ascendingSimplifiers[2]\<close> as the second call of
  \<^verbatim>\<open>extendSimplifier\<close> in \<^verbatim>\<open>toPolytopeC\<close> returns it (generators 0 and 1 folded in).
\<close>

definition secondAscending :: "'g PolytopeS \<Rightarrow> (error + ('g, 'g Flag) FlagMap) option" where
  "secondAscending P =
     bindR (extendSimplifier P 0 [identitySimplifier P] 0 0) (\<lambda>(heap1, s1).
     bindR (extendSimplifier P 0 heap1 s1 1) (\<lambda>(heap2, s2). Some (Inr (heap2 ! s2))))"

section \<open>Notions for the proofs about \<^verbatim>\<open>toPolytopeC\<close>\<close>

text \<open>
  What the conversion needs from the group's comparator so that \<^verbatim>\<open>equalFlags\<close> and the
  keys of a flag map agree: it returns 0 on equal elements and on no others.
\<close>

definition comparatorExact :: "'g PolytopeS \<Rightarrow> bool" where
  "comparatorExact P = (\<forall>a b. (compare (symmetries P) a b = 0) = (a = b))"

text \<open>
  The fixed points of one flag map are fixed points of another; and the way the store
  changes over time: it grows, objects outside \<open>A\<close> stay as they are, and no object
  gains a fixed point.
\<close>

definition fixedWithin :: "('g, 'g Flag) FlagMap \<Rightarrow> ('g, 'g Flag) FlagMap \<Rightarrow> bool" where
  "fixedWithin X Y = (\<forall>f. map_of X f = Some f \<longrightarrow> map_of Y f = Some f)"

definition evolves :: "nat set \<Rightarrow> 'g store \<Rightarrow> 'g store \<Rightarrow> bool" where
  "evolves A h h' =
     (length h \<le> length h'
      \<and> (\<forall>a < length h. a \<notin> A \<longrightarrow> h' ! a = h ! a)
      \<and> (\<forall>a < length h. fixedWithin (h' ! a) (h ! a)))"

text \<open>No two flags share a location.\<close>

definition injectiveMap :: "('a \<times> nat) list \<Rightarrow> bool" where
  "injectiveMap row = (\<forall>a b l. map_of row a = Some l \<and> map_of row b = Some l \<longrightarrow> a = b)"

text \<open>
  For the circumcenter: the array \<^verbatim>\<open>vectors\<close> holds vectors of dimension \<open>n\<close>, none of
  them zero, each orthogonal to the ones before it.
\<close>

definition orthogonalBasis :: "nat \<Rightarrow> Point list \<Rightarrow> bool" where
  "orthogonalBasis n us =
     ((\<forall>u \<in> set us. dimensionsP u = n \<and> 0 < dot u u) \<and> sorted_wrt (\<lambda>a b. dot a b = 0) us)"
text \<open>
  The comparator as a strict total order with results \<open>-1\<close>, \<open>0\<close>, \<open>1\<close>; the order
  on flags that \<^verbatim>\<open>compareFlags\<close> induces; and a simplifier that sends no key to a
  greater flag.
\<close>

definition strictTotalOrder :: "'g PolytopeS \<Rightarrow> bool" where
  "strictTotalOrder P =
     (let cmp = compare (symmetries P) in
      (\<forall>a b. (cmp a b = 0) = (a = b))
      \<and> (\<forall>a b. (cmp a b = 1) = (cmp b a = - 1))
      \<and> (\<forall>a b. cmp a b = - 1 \<or> cmp a b = 0 \<or> cmp a b = 1)
      \<and> (\<forall>a b c. cmp a b = - 1 \<and> cmp b c = - 1 \<longrightarrow> cmp a c = - 1))"

definition flagLE :: "'g PolytopeS \<Rightarrow> 'g Flag \<Rightarrow> 'g Flag \<Rightarrow> bool" where
  "flagLE P a b = (compareFlags P a b \<noteq> 1)"

definition decreasing :: "'g PolytopeS \<Rightarrow> ('g, 'g Flag) FlagMap \<Rightarrow> bool" where
  "decreasing P m = (\<forall>k v. map_of m k = Some v \<longrightarrow> flagLE P v k)"

section \<open>Properties of the explicit polytope\<close>

lemma sum_list_squares_zip_zero:
  "sum_list (map (\<lambda>x. x * x) (map (\<lambda>(x, y). x - y) (zip xs (replicate (length xs) (0::real)))))
     = sum_list (map (\<lambda>x. x * x) xs)"
  by (induction xs) auto

lemma magnitude_is_distance_origin: "magnitude v = distance v (origin (dimensionsP v))"
  using sum_list_squares_zip_zero [of "coordinates v"]
  by (simp add: distance_def magnitude_def sqMagnitude_def subtractP_def origin_def dimensionsP_def)

lemma distance_sym: "length (coordinates p) = length (coordinates q) \<Longrightarrow> distance p q = distance q p"
proof -
  have "length xs = length ys \<Longrightarrow>
        sum_list (map (\<lambda>x. x * x) (map (\<lambda>(x, y). x - y) (zip xs ys)))
          = sum_list (map (\<lambda>x. x * x) (map (\<lambda>(x, y). x - y) (zip ys xs)))" for xs ys :: "real list"
    by (induction xs ys rule: list_induct2) (auto simp: algebra_simps)
  then show "length (coordinates p) = length (coordinates q) \<Longrightarrow> distance p q = distance q p"
    by (simp add: distance_def magnitude_def sqMagnitude_def subtractP_def)
qed

text \<open>
  C10.  Without a construction node the constructor fails on every element list with
  fewer than two levels, the nullitope included; no polytope with
  \<open>dimensions = length - 1\<close> is produced.  With a construction node the nullitope is
  built (dimensions and space dimensions \<open>-1\<close>), and so is a single level of at least one
  vertex (dimensions \<open>0\<close>).  So on such lists a polytope comes out only when the node is
  supplied.
\<close>

theorem constructor_needs_two_levels:
  "(lengthEL el < 2 \<longrightarrow> newPolytopeC el None = Inl TypeError)
   \<and> (lengthEL el < 2 \<and> newPolytopeC el constr = Inr P \<longrightarrow> constr \<noteq> None)
   \<and> newPolytopeC Nullitope (Some c)
        = Inr \<lparr>construction = c, dimensions = - 1, spaceDimensions = - 1, elementList = Nullitope\<rparr>
   \<and> newPolytopeC (Levels (v # vs) []) (Some c)
        = Inr \<lparr>construction = c, dimensions = 0, spaceDimensions = int (dimensionsP v),
               elementList = Levels (v # vs) []\<rparr>"
proof -
  have fails: "newPolytopeC el None = Inl TypeError" if "lengthEL el < 2"
  proof (cases el)
    case Nullitope
    then show ?thesis by (simp add: newPolytopeC_def defaultConstruction_def)
  next
    case (Levels vs hs)
    with that have "hs = []" by simp
    with Levels show ?thesis by (simp add: newPolytopeC_def defaultConstruction_def)
  qed
  then have "lengthEL el < 2 \<and> newPolytopeC el constr = Inr P \<longrightarrow> constr \<noteq> None"
    by (cases constr) auto
  with fails show ?thesis
    by (simp add: newPolytopeC_def initialSpaceDimensions_def)
qed

theorem constructor_needs_two_levels_witness:
  "lengthEL (Levels [Point [0, 0]] []) < 2
   \<and> newPolytopeC (Levels [Point [0, 0]] []) None = Inl TypeError
   \<and> newPolytopeC Nullitope None = Inl TypeError
   \<and> newPolytopeC (Levels [Point [0, 0]] []) (Some (CNName ''point''))
        = Inr \<lparr>construction = CNName ''point'', dimensions = 0, spaceDimensions = 2,
               elementList = Levels [Point [0, 0]] []\<rparr>"
  using constructor_needs_two_levels
      [where el = "Levels [Point [0, 0]] []" and constr = None and c = "CNName ''point''"
         and v = "Point [0, 0]" and vs = "[]"]
    constructor_needs_two_levels [where el = Nullitope and constr = None]
  by (simp add: dimensionsP_def)

text \<open>
  C6, on the code as it is.  A vertex with more than \<open>dim\<close> coordinates keeps all of
  them, because the slice is assigned to a local variable: three coordinates stay three
  after \<^verbatim>\<open>setSpaceDimensions(2)\<close>.  A vertex that lacks two or more coordinates is
  padded only in part, because the loop bound shrinks with every push: one coordinate
  becomes three, not four, after \<^verbatim>\<open>setSpaceDimensions(4)\<close>.  The field
  \<^verbatim>\<open>spaceDimensions\<close> is set to \<open>dim\<close> all the same.
\<close>

theorem setSpaceDimensions_wrong_lengths:
  "setSpaceDimensions 2
     \<lparr>construction = CNName ''p'', dimensions = 0, spaceDimensions = 3,
      elementList = Levels [Point [1, 2, 3]] []\<rparr>
   = \<lparr>construction = CNName ''p'', dimensions = 0, spaceDimensions = 2,
      elementList = Levels [Point [1, 2, 3]] []\<rparr>
   \<and> setSpaceDimensions 4
     \<lparr>construction = CNName ''p'', dimensions = 0, spaceDimensions = 1,
      elementList = Levels [Point [1]] []\<rparr>
   = \<lparr>construction = CNName ''p'', dimensions = 0, spaceDimensions = 4,
      elementList = Levels [Point [1, 0, 0]] []\<rparr>"
  by (simp add: setSpaceDimensions_def resizeVertex_def)

text \<open>
  C9, as amended.  With no vertex level \<^verbatim>\<open>circumradius()\<close> returns 0.  With at least
  one vertex it returns the magnitude of the first vertex, which is that vertex's
  distance from the origin; the other vertices and the circumcenter are not consulted.
  So whenever some point \<open>c\<close> is at distance \<open>R\<close> from every vertex, the value returned
  is \<open>R\<close> if \<open>c\<close> is the origin, and in general it is \<open>R\<close> exactly when the first vertex
  is as far from the origin as from \<open>c\<close>.
\<close>

theorem circumradius_first_vertex:
  "(elementList P = Nullitope \<longrightarrow> circumradius P = Inr 0)
   \<and> (elementList P = Levels (v # vs) hs \<longrightarrow>
        circumradius P = Inr (magnitude v)
        \<and> magnitude v = distance v (origin (dimensionsP v))
        \<and> (equidistant c R (v # vs) \<longrightarrow>
             (c = origin (dimensionsP v) \<longrightarrow> circumradius P = Inr R)
             \<and> (circumradius P = Inr R \<longleftrightarrow> magnitude v = distance c v)))"
proof -
  have "magnitude v = R" if "equidistant c R (v # vs)" and "c = origin (dimensionsP v)"
  proof -
    from that have "distance (origin (dimensionsP v)) v = R"
      by (simp add: equidistant_def)
    moreover have "distance (origin (dimensionsP v)) v = distance v (origin (dimensionsP v))"
      by (rule distance_sym) (simp add: origin_def dimensionsP_def)
    ultimately show ?thesis
      by (simp add: magnitude_is_distance_origin)
  qed
  moreover have "magnitude v = distance v (origin (dimensionsP v))"
    by (rule magnitude_is_distance_origin)
  moreover have "distance c v = R" if "equidistant c R (v # vs)"
    using that by (simp add: equidistant_def)
  ultimately show ?thesis
    by (auto simp: circumradius_def)
qed

theorem circumradius_first_vertex_witness:
  "circumradius \<lparr>construction = CNName ''nullitope'', dimensions = - 1, spaceDimensions = - 1,
                 elementList = Nullitope\<rparr> = Inr 0
   \<and> equidistant (origin 2) 1 [Point [1, 0], Point [0, 1], Point [- 1, 0]]
   \<and> circumradius \<lparr>construction = CNPlain 3 2, dimensions = 2, spaceDimensions = 2,
        elementList = Levels [Point [1, 0], Point [0, 1], Point [- 1, 0]]
                        [[[0, 1], [1, 2], [2, 0]], [[0, 1, 2]]]\<rparr> = Inr 1"
  using circumradius_first_vertex
      [where P = "\<lparr>construction = CNName ''nullitope'', dimensions = - 1, spaceDimensions = - 1,
                   elementList = Nullitope\<rparr>"]
    circumradius_first_vertex
      [where P = "\<lparr>construction = CNPlain 3 2, dimensions = 2, spaceDimensions = 2,
                   elementList = Levels [Point [1, 0], Point [0, 1], Point [- 1, 0]]
                                   [[[0, 1], [1, 2], [2, 0]], [[0, 1, 2]]]\<rparr>"
         and v = "Point [1, 0]" and vs = "[Point [0, 1], Point [- 1, 0]]"
         and hs = "[[[0, 1], [1, 2], [2, 0]], [[0, 1, 2]]]" and c = "origin 2" and R = 1]
  by (simp add: equidistant_def distance_def magnitude_def sqMagnitude_def subtractP_def
      origin_def dimensionsP_def numeral_2_eq_2)

text \<open>
  C9 as stated fails in its last clause.  For the segment from \<open>(1,0)\<close> to \<open>(1,2)\<close> the
  circumcenter is the midpoint \<open>(1,1)\<close>, at distance 1 from both vertices, and it is
  not the origin; \<^verbatim>\<open>circumradius()\<close> returns 1 all the same.
\<close>

theorem circumradius_off_origin_counterexample:
  "circumradius \<lparr>construction = CNPlain 2 1, dimensions = 1, spaceDimensions = 2,
        elementList = Levels [Point [1, 0], Point [1, 2]] [[[0, 1]]]\<rparr> = Inr 1
   \<and> equidistant (Point [1, 1]) 1 [Point [1, 0], Point [1, 2]]
   \<and> Point [1, 1] = Point (map (\<lambda>(x, y). (x + y) / 2) (zip [1, 0] [1, 2]))
   \<and> Point [1, 1] \<noteq> origin 2"
  by (simp add: circumradius_def equidistant_def distance_def magnitude_def sqMagnitude_def
      subtractP_def origin_def numeral_2_eq_2)

section \<open>Properties of \<^verbatim>\<open>circumcenter\<close>\<close>


lemma dimensionsP_subtractP: "dimensionsP p = n \<Longrightarrow> dimensionsP q = n \<Longrightarrow> dimensionsP (subtractP p q) = n"
  by (simp add: dimensionsP_def subtractP_def)

lemma dimensionsP_scaleP: "dimensionsP (scaleP p r) = dimensionsP p"
  by (simp add: dimensionsP_def scaleP_def)

lemma dimensionsP_project: "dimensionsP (project q v) = dimensionsP v"
  by (simp add: project_def dimensionsP_scaleP)


lemma dot_commute: "dot p q = dot q p"
proof -
  have "sum_list (map (\<lambda>(x, y). x * y) (zip xs ys)) = sum_list (map (\<lambda>(x, y). x * y) (zip ys xs))"
    for xs ys :: "real list"
  proof (induction xs arbitrary: ys)
    case Nil
    then show ?case by simp
  next
    case (Cons x xs)
    then show ?case by (cases ys) simp_all
  qed
  then show ?thesis by (simp add: dot_def)
qed

lemma dot_scaleP: "dot (scaleP p r) q = r * dot p q"
proof -
  have "sum_list (map (\<lambda>(x, y). x * y) (zip (map (\<lambda>x. x * r) xs) ys))
          = r * sum_list (map (\<lambda>(x, y). x * y) (zip xs ys))" for xs ys :: "real list"
  proof (induction xs arbitrary: ys)
    case Nil
    then show ?case by simp
  next
    case (Cons x xs)
    then show ?case by (cases ys) (simp_all add: algebra_simps)
  qed
  then show ?thesis by (simp add: dot_def scaleP_def)
qed


lemma dot_subtractP:
  assumes "dimensionsP p = n" "dimensionsP q = n" "dimensionsP w = n"
  shows "dot (subtractP p q) w = dot p w - dot q w"
proof -
  have "length xs = length ys \<Longrightarrow> length ys = length zs \<Longrightarrow>
        sum_list (map (\<lambda>(x, y). x * y) (zip (map (\<lambda>(x, y). x - y) (zip xs ys)) zs))
          = sum_list (map (\<lambda>(x, y). x * y) (zip xs zs)) - sum_list (map (\<lambda>(x, y). x * y) (zip ys zs))"
    for xs ys zs :: "real list"
    by (induction xs ys zs rule: list_induct3) (simp_all add: algebra_simps)
  with assms show ?thesis by (simp add: dot_def subtractP_def dimensionsP_def)
qed


lemma sqMagnitude_dot: "sqMagnitude p = dot p p"
proof -
  have "sum_list (map (\<lambda>x. x * x) xs) = sum_list (map (\<lambda>(x, y). x * y) (zip xs xs))" for xs :: "real list"
    by (induction xs) simp_all
  then show ?thesis by (simp add: sqMagnitude_def dot_def)
qed


lemma distance_distanceSq: "distance p q = sqrt (distanceSq p q)"
  by (simp add: distance_def magnitude_def distanceSq_def)

lemma sqMagnitude_nonneg: "0 \<le> sqMagnitude p"
  by (auto intro!: sum_list_nonneg simp: sqMagnitude_def)

lemma magnitude_gt_iff: "0 \<le> e \<Longrightarrow> (e < magnitude p) = (e * e < sqMagnitude p)"
proof -
  assume e: "0 \<le> e"
  have "(e < sqrt (sqMagnitude p)) = (sqrt (e * e) < sqrt (sqMagnitude p))"
    using e by simp
  also have "\<dots> = (e * e < sqMagnitude p)"
    by (rule real_sqrt_less_iff)
  finally show ?thesis by (simp add: magnitude_def)
qed

lemma epsilon_pos: "0 < epsilon"
  by (simp add: epsilon_def)

lemma magnitude_epsilon_dot: "epsilon < magnitude v \<Longrightarrow> 0 < dot v v"
proof -
  assume "epsilon < magnitude v"
  then have "epsilon * epsilon < sqMagnitude v"
    using magnitude_gt_iff [of epsilon v] epsilon_pos by simp
  moreover have "0 \<le> epsilon * epsilon" by simp
  ultimately have "0 < sqMagnitude v" by linarith
  then show ?thesis by (simp add: sqMagnitude_dot)
qed



lemma residual_dimensions:
  assumes "dimensionsP v = n" "\<forall>u \<in> set us. dimensionsP u = n"
  shows "dimensionsP (residual Q us v) = n"
  using assms
proof (induction us arbitrary: v)
  case Nil
  then show ?case by simp
next
  case (Cons u us)
  then have "dimensionsP (subtractP v (project Q u)) = n"
    by (simp add: dimensionsP_subtractP dimensionsP_project)
  with Cons show ?case by simp
qed

lemma residual_orthogonal_all:
  assumes "dimensionsP v = n" "\<forall>u \<in> set us. dimensionsP u = n" "dimensionsP w = n"
    and "\<forall>u \<in> set us. dot u w = 0"
  shows "dot (residual Q us v) w = dot v w"
  using assms
proof (induction us arbitrary: v)
  case Nil
  then show ?case by simp
next
  case (Cons u us)
  let ?v = "subtractP v (project Q u)"
  from Cons.prems have d: "dimensionsP ?v = n"
    by (simp add: dimensionsP_subtractP dimensionsP_project)
  have "dot ?v w = dot v w - dot (project Q u) w"
    using Cons.prems by (intro dot_subtractP [where n = n]) (simp_all add: dimensionsP_project)
  also have "dot (project Q u) w = 0"
    using Cons.prems(4) by (simp add: project_def dot_scaleP)
  finally have "dot ?v w = dot v w" by simp
  with Cons.IH [OF d] Cons.prems show ?case by simp
qed

lemma residual_member:
  assumes "dimensionsP v = n" "\<forall>u \<in> set us. dimensionsP u = n \<and> 0 < dot u u"
    and "sorted_wrt (\<lambda>a b. dot a b = 0) us" and "w \<in> set us"
  shows "dot (residual Q us v) w = dot v w - dot Q w"
  using assms
proof (induction us arbitrary: v)
  case Nil
  then show ?case by simp
next
  case (Cons u us)
  let ?v = "subtractP v (project Q u)"
  from Cons.prems have w: "dimensionsP w = n" and u: "dimensionsP u = n" "0 < dot u u"
    and us: "\<forall>x \<in> set us. dimensionsP x = n" by auto
  from Cons.prems u have d: "dimensionsP ?v = n"
    by (simp add: dimensionsP_subtractP dimensionsP_project)
  have "dot ?v w = dot v w - dot (project Q u) w"
    using Cons.prems(1) u(1) w by (intro dot_subtractP [where n = n]) (simp_all add: dimensionsP_project)
  then have sub: "dot ?v w = dot v w - dot Q u / dot u u * dot u w"
    by (simp add: project_def dot_scaleP)
  show ?case
  proof (cases "w = u")
    case True
    from Cons.prems(3) have "\<forall>x \<in> set us. dot x w = 0"
      by (simp add: True dot_commute [of _ u])
    from residual_orthogonal_all [OF d us w this]
    have "dot (residual Q us ?v) w = dot ?v w" .
    with sub True u(2) show ?thesis by simp
  next
    case False
    with Cons.prems(4) have mem: "w \<in> set us" by simp
    with Cons.prems(3) have "dot u w = 0" by simp
    with sub have "dot ?v w = dot v w" by simp
    moreover from Cons.prems have "dot (residual Q us ?v) w = dot ?v w - dot Q w"
      by (intro Cons.IH [OF d _ _ mem]) simp_all
    ultimately show ?thesis by simp
  qed
qed

text \<open>
  The vectors in the array are longer than \<open>epsilon\<close> and orthogonal to one another, and
  the array starts empty; so the residual \<open>v\<close> of \<open>Q\<close> is orthogonal to all of them,
  and \<open>Q \<cdot> v = v \<cdot> v\<close>.  Hence neither \<^verbatim>\<open>project\<close> nor the quotient \<open>k\<close> divides by
  zero.
\<close>

lemma residual_orthogonal:
  assumes "orthogonalBasis n vectors" "dimensionsP Q = n" "u \<in> set vectors"
  shows "dot (residual Q vectors Q) u = 0"
  using residual_member [of Q n vectors u Q] assms by (simp add: orthogonalBasis_def)

lemma dot_residual_self:
  assumes "orthogonalBasis n vectors" "dimensionsP Q = n"
  shows "dot Q (residual Q vectors Q) = dot (residual Q vectors Q) (residual Q vectors Q)"
proof -
  let ?v = "residual Q vectors Q"
  from assms have d: "\<forall>u \<in> set vectors. dimensionsP u = n" by (simp add: orthogonalBasis_def)
  have dv: "dimensionsP ?v = n" by (rule residual_dimensions [OF assms(2) d])
  have "\<forall>u \<in> set vectors. dot u ?v = 0"
    using residual_orthogonal [OF assms] by (simp add: dot_commute [of _ ?v])
  from residual_orthogonal_all [OF assms(2) d dv this] show ?thesis
    by (simp add: dot_commute [of Q ?v])
qed

lemma orthogonalBasis_extend:
  assumes "orthogonalBasis n vectors" "dimensionsP Q = n" "epsilon < magnitude (residual Q vectors Q)"
  shows "orthogonalBasis n (vectors @ [residual Q vectors Q])"
proof -
  let ?v = "residual Q vectors Q"
  from assms have d: "\<forall>u \<in> set vectors. dimensionsP u = n" by (simp add: orthogonalBasis_def)
  have "dimensionsP ?v = n" by (rule residual_dimensions [OF assms(2) d])
  moreover have "0 < dot ?v ?v" using assms(3) by (rule magnitude_epsilon_dot)
  moreover have "\<forall>u \<in> set vectors. dot u ?v = 0"
    using residual_orthogonal [OF assms(1,2)] by (simp add: dot_commute [of _ ?v])
  ultimately show ?thesis
    using assms(1) by (simp add: orthogonalBasis_def sorted_wrt_append)
qed
















lemma circumcenter_examples_constructed:
  "newPolytopeC (elementList nullitopeC) (Some (CNName ''nullitope'')) = Inr nullitopeC
   \<and> newPolytopeC (elementList pointC) (Some (CNName ''point'')) = Inr pointC
   \<and> newPolytopeC (elementList regularTriangleC) None = Inr regularTriangleC
   \<and> newPolytopeC (elementList nonConcyclicC) None = Inr nonConcyclicC
   \<and> newPolytopeC (elementList thinTriangleC) None = Inr thinTriangleC
   \<and> newPolytopeC (elementList skewC) None = Inr skewC"
  by (simp add: newPolytopeC_def defaultConstruction_def initialSpaceDimensions_def dimensionsP_def
      nullitopeC_def pointC_def regularTriangleC_def nonConcyclicC_def thinTriangleC_def skewC_def)




section \<open>Properties of \<^verbatim>\<open>faceToVertices\<close>\<close>












lemma example_polytopes_constructed:
  "newPolytopeC (elementList segmentC) None = Inr segmentC
   \<and> newPolytopeC (elementList starC) None = Inr starC
   \<and> newPolytopeC (elementList openPathC) None = Inr openPathC
   \<and> newPolytopeC (elementList twoTrianglesC) None = Inr twoTrianglesC
   \<and> newPolytopeC (elementList doubledEdgeC) None = Inr doubledEdgeC"
  by (simp add: newPolytopeC_def defaultConstruction_def initialSpaceDimensions_def dimensionsP_def
      segmentC_def starC_def openPathC_def twoTrianglesC_def doubledEdgeC_def)

lemmas face_evaluation =
  faceToVertices_def nthOpt_def entry_def ensureNode_def getNode_def setNode_def newNodeD_def
  linkTo_def fillSlot_def getCycle_def emptyDLL_def

lemma oneLinkDLL_linked: "linkEdges [[0, 1]] [0] emptyDLL = Inr oneLinkDLL"
  by (simp add: oneLinkDLL_def face_evaluation)

lemma faceToVertices_short_edge:
  "faceToVertices \<lparr>construction = CNPlain 1 2, dimensions = 2, spaceDimensions = 2,
        elementList = Levels [Point [0, 0]] [[[0]], [[0]]]\<rparr> 0 = Inl TypeError
   \<and> faceToVertices \<lparr>construction = CNPlain 1 2, dimensions = 2, spaceDimensions = 2,
        elementList = Levels [Point [0, 0]] [[[]], [[0]]]\<rparr> 0 = Inr [Undefined]
   \<and> faceToVertices \<lparr>construction = CNPlain 2 2, dimensions = 2, spaceDimensions = 2,
        elementList = Levels [Point [0, 0]] [[[0], [0]], [[0, 1]]]\<rparr> 0 = Inr [Index 0, Undefined]
   \<and> faceToVertices \<lparr>construction = CNPlain 3 2, dimensions = 2, spaceDimensions = 2,
        elementList = Levels [Point [0, 0]] [[[0], [0], [0]], [[0, 1, 2]]]\<rparr> 0 = Inl NodeLinkError"
  by (simp add: face_evaluation)




lemma linkEdges_as_list:
  "\<forall>j \<in> set js. j < length edges \<Longrightarrow>
     linkEdges edges js dll = linkEdgeList (map (\<lambda>j. edges ! j) js) dll"
  by (induction js arbitrary: dll) (auto simp: nthOpt_def split: sum.splits)

lemma faceToVertices_as_edges:
  assumes "higherLevel (elementList P) 1 = Some edges"
    and "higherLevel (elementList P) 2 = Some faces"
    and "i < length faces" and "\<forall>j \<in> set (faces ! i). j < length edges"
  shows "faceToVertices P (int i) = cycleOfEdges (map (\<lambda>j. edges ! j) (faces ! i))"
proof (cases "faces ! i")
  case Nil
  with assms show ?thesis by (simp add: faceToVertices_def cycleOfEdges_def)
next
  case (Cons j js)
  with assms(4) have "j < length edges" by simp
  with assms Cons linkEdges_as_list [OF assms(4), of emptyDLL] show ?thesis
    by (simp add: faceToVertices_def cycleOfEdges_def nthOpt_def split: sum.splits)
qed

lemma all_square_boundaries:
  "list_all (\<lambda>es. squareTraversal (cycleOfEdges es)) squareBoundaries"
  by code_simp

text \<open>
  C8.  When the edges that the face \<open>i\<close> lists are the four edges
  \<open>(0,1), (1,2), (2,3), (3,0)\<close>, in any order and each with its endpoints either way
  round, \<^verbatim>\<open>faceToVertices(i)\<close> returns a permutation of the four vertices in which
  every neighbouring pair, the last and the first included, is one of the four edges.
\<close>

theorem faceToVertices_square:
  assumes "higherLevel (elementList P) 1 = Some edges"
    and "higherLevel (elementList P) 2 = Some faces"
    and "i < length faces" and "\<forall>j \<in> set (faces ! i). j < length edges"
    and "map (\<lambda>j. edges ! j) (faces ! i) \<in> set squareBoundaries"
  shows "\<exists>cyc. faceToVertices P (int i) = Inr (map Index cyc) \<and> length cyc = 4
           \<and> set cyc = {0, 1, 2, 3} \<and> distinct cyc \<and> isTraversalOf cyc squareEdges"
proof -
  from all_square_boundaries assms(5)
  have "squareTraversal (cycleOfEdges (map (\<lambda>j. edges ! j) (faces ! i)))"
    by (simp add: list_all_iff)
  then have "squareTraversal (faceToVertices P (int i))"
    by (simp add: faceToVertices_as_edges [OF assms(1-4)])
  then obtain keys where k: "faceToVertices P (int i) = Inr keys"
    and u: "\<forall>key \<in> set keys. key \<noteq> Undefined" and l: "length (map indexOf keys) = 4"
    and d: "distinct (map indexOf keys)" and b: "\<forall>v \<in> set (map indexOf keys). v < 4"
    and t: "isTraversalOf (map indexOf keys) squareEdges"
    by (auto simp: squareTraversal_def list_all_iff Let_def split: sum.splits)
  define cyc where "cyc = map indexOf keys"
  have "Index (indexOf key) = key" if "key \<noteq> Undefined" for key
    using that by (cases key) simp_all
  with u have "map Index cyc = keys"
    by (simp add: cyc_def map_idI)
  with k have r: "faceToVertices P (int i) = Inr (map Index cyc)" by simp
  note l = l [folded cyc_def] and d = d [folded cyc_def] and b = b [folded cyc_def]
    and t = t [folded cyc_def]
  from d l have "card (set cyc) = 4" by (simp add: distinct_card)
  moreover from b have "set cyc \<subseteq> {0, 1, 2, 3}" by force
  ultimately have "set cyc = {0, 1, 2, 3}" by (intro card_subset_eq) simp_all
  with r l d t show ?thesis by blast
qed

lemma unit_square_boundary:
  "map (\<lambda>j. [[0, 1], [1, 2], [2, 3], [3, 0]] ! j) ([[0, 1, 2, 3]] ! 0) \<in> set squareBoundaries"
  by code_simp

theorem faceToVertices_square_witness:
  "\<exists>cyc. faceToVertices \<lparr>construction = CNPlain 4 2, dimensions = 2, spaceDimensions = 2,
        elementList = Levels [Point [0, 0], Point [1, 0], Point [1, 1], Point [0, 1]]
                        [[[0, 1], [1, 2], [2, 3], [3, 0]], [[0, 1, 2, 3]]]\<rparr> (int 0)
          = Inr (map Index cyc)
     \<and> length cyc = 4 \<and> set cyc = {0, 1, 2, 3} \<and> distinct cyc
     \<and> isTraversalOf cyc squareEdges"
  by (rule faceToVertices_square
      [where edges = "[[0, 1], [1, 2], [2, 3], [3, 0]]" and faces = "[[0, 1, 2, 3]]",
        OF _ _ _ _ unit_square_boundary])
    simp_all

section \<open>The conversion on the square\<close>

text \<open>
  C1, on the code as it is.  The symmetry group of the square has 8 elements, and 2 of
  them fix the seed vertex \<open>(1,0)\<close>: the identity and the reflection of generator 1,
  the only generator that the vertex simplifier is meant to fold in.  The orbit of the
  seed vertex has 4 points.  \<^verbatim>\<open>toPolytopeC()\<close> returns a polytope with one vertex, one
  edge and one face.
\<close>

theorem toPolytopeC_square_one_vertex:
  "length (enumerateElements (symmetries squareS)) = 8
   \<and> filter (\<lambda>d. applyMatrix (Point [1, 0]) (matrix (symmetries squareS) d) = Point [1, 0])
        (enumerateElements (symmetries squareS)) = [(Q0, False), (Q0, True)]
   \<and> remdups (map (\<lambda>d. applyMatrix (Point [1, 0]) (matrix (symmetries squareS) d))
        (enumerateElements (symmetries squareS)))
      = [Point [1, 0], Point [0, 1], Point [- 1, 0], Point [0, - 1]]
   \<and> toPolytopeC squareS
      = Some (Inr \<lparr>construction = CNPlain 1 2, dimensions = 2, spaceDimensions = 2,
                   elementList = Levels [Point [1, 0]] [[[0]], [[0]]]\<rparr>)"
  by code_simp

text \<open>
  C2, on the code as it is.  With the order \<open>orderA\<close> on the group, in which the
  identity is least, the simplifier returned by the second \<^verbatim>\<open>extendSimplifier\<close> call of
  \<^verbatim>\<open>toPolytopeC\<close> sends the flag at \<open>(Q2, False)\<close> to the flag at \<open>(Q3, False)\<close>, while
  generator 1, folded in by that very call, leads from it to the flag at \<open>(Q2, True)\<close>,
  which is smaller.  The flags fall into two classes although generators 0 and 1 connect
  all of them, so the representative of the second class is not the least flag reachable.
\<close>

theorem extendSimplifier_not_minimal:
  "secondAscending (squareOf d4elements orderA)
     = Some (Inr [(Flag 0 (Q0, False), Flag 0 (Q0, False)),
                  (Flag 0 (Q1, False), Flag 0 (Q0, False)),
                  (Flag 0 (Q2, False), Flag 0 (Q3, False)),
                  (Flag 0 (Q3, False), Flag 0 (Q3, False)),
                  (Flag 0 (Q0, True), Flag 0 (Q0, False)),
                  (Flag 0 (Q1, True), Flag 0 (Q0, False)),
                  (Flag 0 (Q2, True), Flag 0 (Q0, False)),
                  (Flag 0 (Q3, True), Flag 0 (Q3, False))])
   \<and> moveFlag (squareOf d4elements orderA) (Flag 0 (Q2, False)) 1 = Inr (Flag 0 (Q2, True))
   \<and> compareFlags (squareOf d4elements orderA) (Flag 0 (Q3, False)) (Flag 0 (Q2, True)) = 1
   \<and> compareFlags (squareOf d4elements orderA) (Flag 0 (Q0, False)) (Flag 0 (Q3, False)) = - 1"
  by code_simp

text \<open>
  C3, on the code as it is.  With the order \<open>orderB\<close>, in which the rotation
  \<open>(Q1, False)\<close> precedes the identity, the simplifier returned by the second
  \<^verbatim>\<open>extendSimplifier\<close> call sends the flag at \<open>(Q0, True)\<close> to the flag at the identity,
  and the flag at the identity to the flag at \<open>(Q1, False)\<close>: looking up twice is not
  looking up once.  The clean-up loop starts with \<^verbatim>\<open>oldElem\<close> at the identity flag and
  so stops at once when the first lookup yields that flag.
\<close>

theorem extendSimplifier_not_idempotent:
  "secondAscending (squareOf d4elements orderB)
     = Some (Inr [(Flag 0 (Q0, False), Flag 0 (Q1, False)),
                  (Flag 0 (Q1, False), Flag 0 (Q1, False)),
                  (Flag 0 (Q2, False), Flag 0 (Q1, False)),
                  (Flag 0 (Q3, False), Flag 0 (Q1, False)),
                  (Flag 0 (Q0, True), Flag 0 (Q0, False)),
                  (Flag 0 (Q1, True), Flag 0 (Q0, False)),
                  (Flag 0 (Q2, True), Flag 0 (Q1, False)),
                  (Flag 0 (Q3, True), Flag 0 (Q1, False))])
   \<and> Flag 0 (Q0, False) \<noteq> Flag 0 ((Q1, False) :: d4)"
  by code_simp

section \<open>The adjacency lists of \<^verbatim>\<open>toPolytopeC\<close>\<close>

lemma equalFlags_iff: "comparatorExact P \<Longrightarrow> equalFlags P f g = (f = g)"
  by (cases f; cases g) (auto simp: equalFlags_def compareFlags_def comparatorExact_def)

lemma resolve_result:
  assumes "resolve P m oldElem elem = Some y"
  shows "y = Inr r \<longrightarrow>
           (elem = Some r \<and> equalFlags P oldElem r) \<or> (\<exists>x. map_of m x = Some r \<and> equalFlags P x r)"
proof -
  have "(case (((P, m), oldElem), elem) of (((P, m), oldElem), elem) \<Rightarrow> \<lambda>y. y = Inr r \<longrightarrow>
           (elem = Some r \<and> equalFlags P oldElem r) \<or> (\<exists>x. map_of m x = Some r \<and> equalFlags P x r)) y"
  proof (rule resolve.raw_induct [OF _ assms], goal_cases)
    case (1 resolve' P m oldElem elem y)
    show ?case
    proof (cases elem)
      case None
      with 1(2) show ?thesis by auto
    next
      case (Some e)
      show ?thesis
      proof (cases "equalFlags P oldElem e")
        case True
        with 1(2) Some show ?thesis by auto
      next
        case False
        with 1(2) Some have "resolve' P m e (map_of m e) = Some y" by simp
        from 1(1) [OF this] Some show ?thesis by auto
      qed
    qed
  qed
  then show ?thesis by simp
qed

lemma resolve_fixed:
  "equalFlags P f f \<Longrightarrow> map_of m f = Some f \<Longrightarrow> resolve P m oldElem (Some f) = Some (Inr f)"
  by (subst resolve.simps, simp, subst resolve.simps, simp)


lemma bindR_Inr:
  "bindR m f = Some (Inr y) \<Longrightarrow> \<exists>x. m = Some (Inr x) \<and> f x = Some (Inr y)"
  by (auto simp: bindR_def split: option.splits sum.splits)

lemma cleanUp_other:
  "cleanUp P new acc keys = Some (Inr better) \<Longrightarrow> f \<notin> set keys \<Longrightarrow> map_of better f = map_of acc f"
proof (induction keys arbitrary: acc)
  case Nil
  then show ?case by simp
next
  case (Cons key keys)
  from Cons.prems(1) obtain elem where
    "cleanUp P new (AList.update key elem acc) keys = Some (Inr better)"
    by (auto dest!: bindR_Inr)
  from Cons.IH [OF this] Cons.prems(2) show ?case
    by (simp add: update_conv')
qed

lemma cleanUp_key:
  "cleanUp P new acc keys = Some (Inr better) \<Longrightarrow> f \<in> set keys \<Longrightarrow>
     \<exists>r. resolve P new (Flag 0 (identity (symmetries P))) (map_of new f) = Some (Inr r)
         \<and> map_of better f = Some r"
proof (induction keys arbitrary: acc)
  case Nil
  then show ?case by simp
next
  case (Cons key keys)
  from Cons.prems(1) obtain elem where
    res: "resolve P new (Flag 0 (identity (symmetries P))) (map_of new key) = Some (Inr elem)"
    and rest: "cleanUp P new (AList.update key elem acc) keys = Some (Inr better)"
    by (auto dest!: bindR_Inr)
  show ?case
  proof (cases "f \<in> set keys")
    case True
    from Cons.IH [OF rest this] show ?thesis .
  next
    case False
    with Cons.prems(2) have "f = key" by simp
    moreover from cleanUp_other [OF rest False] have "map_of better f = map_of (AList.update key elem acc) f" .
    ultimately show ?thesis using res by (simp add: update_conv')
  qed
qed

text \<open>Under a comparator that is 0 exactly on equal elements, the clean-up pass keeps the fixed points.\<close>

lemma cleanUp_fixed_points:
  assumes "comparatorExact P" and "cleanUp P new [] (map fst new) = Some (Inr better)"
  shows "(map_of better f = Some f) = (map_of new f = Some f)"
proof
  assume b: "map_of better f = Some f"
  have "f \<in> set (map fst new)"
  proof (rule ccontr)
    assume "f \<notin> set (map fst new)"
    from cleanUp_other [OF assms(2) this] b show False by simp
  qed
  from cleanUp_key [OF assms(2) this] b
  have r: "resolve P new (Flag 0 (identity (symmetries P))) (map_of new f) = Some (Inr f)" by auto
  from resolve_result [OF r, of f]
  show "map_of new f = Some f" by (auto simp: equalFlags_iff [OF assms(1)])
next
  assume n: "map_of new f = Some f"
  then have k: "f \<in> set (map fst new)" by (metis map_of_eq_None_iff option.distinct(1) set_map)
  have "resolve P new (Flag 0 (identity (symmetries P))) (Some f) = Some (Inr f)"
    by (rule resolve_fixed) (simp_all add: n equalFlags_iff [OF assms(1)])
  with cleanUp_key [OF assms(2) k] n show "map_of better f = Some f" by auto
qed

lemma fixedWithin_refl: "fixedWithin X X"
  by (simp add: fixedWithin_def)

lemma fixedWithin_trans: "fixedWithin X Y \<Longrightarrow> fixedWithin Y Z \<Longrightarrow> fixedWithin X Z"
  by (simp add: fixedWithin_def)

lemma evolves_refl: "evolves A h h"
  by (simp add: evolves_def fixedWithin_refl)

lemma evolves_trans:
  assumes "evolves A h1 h2" and "evolves A h2 h3"
  shows "evolves A h1 h3"
proof -
  have "fixedWithin (h3 ! a) (h1 ! a)" if "a < length h1" for a
  proof -
    from that assms have "fixedWithin (h3 ! a) (h2 ! a)" "fixedWithin (h2 ! a) (h1 ! a)"
      by (auto simp: evolves_def)
    then show ?thesis by (rule fixedWithin_trans)
  qed
  with assms show ?thesis by (auto simp: evolves_def)
qed

lemma evolves_mono: "evolves A h h' \<Longrightarrow> A \<subseteq> B \<Longrightarrow> evolves B h h'"
  unfolding evolves_def by auto

lemma fixedWithin_update:
  "l \<noteq> r \<Longrightarrow> fixedWithin (AList.update l r m) m"
  by (auto simp: fixedWithin_def update_conv' split: if_splits)

lemma unionStep_evolves:
  assumes "comparatorExact P" and "unionStep P idS s1 s2 heap key = Some (Inr heap')"
  shows "evolves {s1} heap heap' \<and> length heap' = length heap"
proof -
  have neq: "l \<noteq> r" if "compareFlags P l r \<noteq> 0" for l r
    using that equalFlags_iff [OF assms(1), of l r] by (auto simp: equalFlags_def)
  have upd: "evolves {s1} heap (heap[s1 := AList.update x y (heap ! s1)])" if "x \<noteq> y" for x y
  proof -
    have "fixedWithin (heap[s1 := AList.update x y (heap ! s1)] ! a) (heap ! a)" if "a < length heap" for a
      using that \<open>x \<noteq> y\<close>
      by (cases "a = s1") (simp_all add: fixedWithin_refl fixedWithin_update)
    then show ?thesis by (simp add: evolves_def)
  qed
  have final: "evolves {s1} heap h \<and> length h = length heap"
    if "(if compareFlags P l r = 1 then Some (Inr (heap[s1 := AList.update l r (heap ! s1)]))
         else if compareFlags P l r = - 1 then Some (Inr (heap[s1 := AList.update r l (heap ! s1)]))
         else Some (Inr heap)) = Some (Inr h)" for l r h
  proof -
    consider "compareFlags P l r = 1" | "compareFlags P l r = - 1"
      | "compareFlags P l r \<noteq> 1" "compareFlags P l r \<noteq> - 1" by blast
    then show ?thesis
    proof cases
      case 1
      with neq [of l r] have "l \<noteq> r" by simp
      from upd [OF this] that 1 show ?thesis by auto
    next
      case 2
      with neq [of l r] have "r \<noteq> l" by auto
      from upd [OF this] that 2 show ?thesis by auto
    next
      case 3
      with that show ?thesis by (auto simp: evolves_refl)
    qed
  qed
  from assms(2) show ?thesis
    by (auto simp: unionStep_def Let_def split: sum.splits prod.splits dest!: bindR_Inr dest: final)
qed

lemma unionLoop_evolves:
  assumes "comparatorExact P"
  shows "unionLoop P idS s1 s2 heap keys = Some (Inr heap') \<Longrightarrow>
           evolves {s1} heap heap' \<and> length heap' = length heap"
proof (induction keys arbitrary: heap)
  case Nil
  then show ?case by (simp add: evolves_refl)
next
  case (Cons key keys)
  from Cons.prems obtain h1 where
    s: "unionStep P idS s1 s2 heap key = Some (Inr h1)" and l: "unionLoop P idS s1 s2 h1 keys = Some (Inr heap')"
    by (auto dest!: bindR_Inr)
  from unionStep_evolves [OF assms s] Cons.IH [OF l] show ?case
    by (auto intro: evolves_trans)
qed

text \<open>
  What a call of \<^verbatim>\<open>modifySimplifier\<close> does to the store: the new simplifier is
  allocated at the end, only the object at \<open>s1\<close> is written, no object gains a fixed
  point, and the new simplifier has the fixed points of the object at \<open>s1\<close>.
\<close>

lemma modifySimplifier_store:
  assumes "comparatorExact P" and "modifySimplifier P idS heap s1 s2 = Some (Inr (heap', b))"
    and "s1 < length heap"
  shows "b = length heap \<and> length heap' = Suc (length heap) \<and> evolves {s1} heap heap'
         \<and> fixedWithin (heap' ! b) (heap' ! s1) \<and> fixedWithin (heap' ! s1) (heap' ! b)"
proof -
  from assms(2) obtain h1 better where
    u: "unionLoop P idS s1 s2 heap (map fst (heap ! s1)) = Some (Inr h1)"
    and c: "cleanUp P (h1 ! s1) [] (map fst (h1 ! s1)) = Some (Inr better)"
    and h': "heap' = h1 @ [better]" and b: "b = length h1"
    by (auto simp: modifySimplifier_def dest!: bindR_Inr)
  from unionLoop_evolves [OF assms(1) u] have e: "evolves {s1} heap h1" and len: "length h1 = length heap"
    by auto
  have "evolves {s1} h1 (h1 @ [better])"
    by (simp add: evolves_def nth_append fixedWithin_refl)
  with e have "evolves {s1} heap heap'" unfolding h' by (rule evolves_trans)
  moreover have "heap' ! b = better" "heap' ! s1 = h1 ! s1"
    using assms(3) len by (simp_all add: h' b nth_append)
  ultimately show ?thesis
    using cleanUp_fixed_points [OF assms(1) c] len by (simp add: h' b fixedWithin_def)
qed


lemma modifySimplifier_length:
  assumes "comparatorExact P" and "modifySimplifier P idS heap s1 s2 = Some (Inr (heap', b))"
  shows "b = length heap \<and> length heap' = Suc (length heap)"
proof -
  from assms(2) obtain h1 better where
    u: "unionLoop P idS s1 s2 heap (map fst (heap ! s1)) = Some (Inr h1)"
    and h': "heap' = h1 @ [better]" and b: "b = length h1"
    by (auto simp: modifySimplifier_def dest!: bindR_Inr)
  from unionLoop_evolves [OF assms(1) u] h' b show ?thesis by simp
qed

lemma ascending_addresses:
  assumes "comparatorExact P"
  shows "ascending P is h simps lastS = Some (Inr (h', simps')) \<Longrightarrow> \<forall>a \<in> set simps. a < length h \<Longrightarrow>
           length h \<le> length h' \<and> (\<forall>a \<in> set simps'. a < length h')
           \<and> length simps' = length simps + length is"
proof (induction "is" arbitrary: h simps lastS)
  case Nil
  then show ?case by simp
next
  case (Cons i "is")
  from Cons.prems(1) obtain h1 s where
    m: "modifySimplifier P 0 h lastS (Generator i) = Some (Inr (h1, s))"
    and r: "ascending P is h1 (simps @ [s]) s = Some (Inr (h', simps'))"
    by (auto simp: extendSimplifier_def dest!: bindR_Inr)
  from modifySimplifier_length [OF assms m] have s: "s = length h" and l: "length h1 = Suc (length h)"
    by auto
  have "\<forall>a \<in> set (simps @ [s]). a < length h1"
    using Cons.prems(2) s l by auto
  from Cons.IH [OF r this] l show ?case by simp
qed

lemma descending_length:
  assumes "comparatorExact P"
  shows "descending P is h simps = Some (Inr (h', simps')) \<Longrightarrow> length h \<le> length h'"
proof (induction "is" arbitrary: h simps)
  case Nil
  then show ?case by simp
next
  case (Cons i "is")
  from Cons.prems(1) obtain h1 s where
    m: "modifySimplifier P 0 h (last simps) (Generator (dimensionsS P - (i + 1))) = Some (Inr (h1, s))"
    and r: "descending P is h1 (simps @ [s]) = Some (Inr (h', simps'))"
    by (auto simp: extendSimplifier_def dest!: bindR_Inr)
  from modifySimplifier_length [OF assms m] Cons.IH [OF r] show ?case by simp
qed

lemma evolves_same: "evolves A h h' \<Longrightarrow> a < length h \<Longrightarrow> a \<notin> A \<Longrightarrow> h' ! a = h ! a"
  by (simp add: evolves_def)

lemma evolves_fixed: "evolves A h h' \<Longrightarrow> a < length h \<Longrightarrow> fixedWithin (h' ! a) (h ! a)"
  by (simp add: evolves_def)

lemma evolves_length: "evolves A h h' \<Longrightarrow> length h \<le> length h'"
  by (simp add: evolves_def)

text \<open>
  The merging loops.  \<open>A\<close> holds the simplifiers that are passed as \<^verbatim>\<open>simplifier1\<close>.
  Every simplifier the loop produces has, in the end, exactly the fixed points of the
  object it was made from, and these were fixed points of that object at the start.
\<close>

lemma merges_store:
  assumes "comparatorExact P"
  shows "merges P off asc desc is h simps = Some (Inr (h', simps')) \<Longrightarrow>
         \<forall>i \<in> set is. asc ! i \<in> A \<Longrightarrow> \<forall>a \<in> A. a < length h \<Longrightarrow>
           evolves A h h' \<and> length simps' = length simps + length is
           \<and> (\<forall>k < length simps. simps' ! k = simps ! k)
           \<and> (\<forall>k < length is.
                 simps' ! (length simps + k) \<notin> A \<and> simps' ! (length simps + k) < length h'
                 \<and> fixedWithin (h' ! (simps' ! (length simps + k))) (h ! (asc ! (is ! k)))
                 \<and> fixedWithin (h' ! (asc ! (is ! k))) (h' ! (simps' ! (length simps + k))))"
proof (induction "is" arbitrary: h simps)
  case Nil
  then show ?case by (simp add: evolves_refl)
next
  case (Cons i "is")
  let ?a = "asc ! i"
  from Cons.prems(2,3) have aA: "?a \<in> A" and a: "?a < length h" by auto
  from Cons.prems(1) obtain h1 b where
    m: "modifySimplifier P 0 h ?a (Simplifier (desc ! (dimensionsS P - (i + off)))) = Some (Inr (h1, b))"
    and r: "merges P off asc desc is h1 (simps @ [b]) = Some (Inr (h', simps'))"
    by (auto simp: mergeSimplifiers_def dest!: bindR_Inr)
  from modifySimplifier_store [OF assms m a] have b: "b = length h" and l: "length h1 = Suc (length h)"
    and e1: "evolves {?a} h h1" and f1: "fixedWithin (h1 ! b) (h1 ! ?a)" and f2: "fixedWithin (h1 ! ?a) (h1 ! b)"
    by auto
  from e1 aA have e1A: "evolves A h h1" by (auto intro: evolves_mono)
  have A1: "\<forall>a \<in> A. a < length h1" using Cons.prems(3) l by auto
  from Cons.prems(2) have "\<forall>i \<in> set is. asc ! i \<in> A" by simp
  from Cons.IH [OF r this A1] have e2: "evolves A h1 h'"
    and len: "length simps' = length (simps @ [b]) + length is"
    and old: "\<forall>k < length (simps @ [b]). simps' ! k = (simps @ [b]) ! k"
    and new: "\<forall>k < length is.
                 simps' ! (length (simps @ [b]) + k) \<notin> A \<and> simps' ! (length (simps @ [b]) + k) < length h'
                 \<and> fixedWithin (h' ! (simps' ! (length (simps @ [b]) + k))) (h1 ! (asc ! (is ! k)))
                 \<and> fixedWithin (h' ! (asc ! (is ! k))) (h' ! (simps' ! (length (simps @ [b]) + k)))"
    by blast+
  have bA: "b \<notin> A" using Cons.prems(3) b by auto
  have b1: "b < length h1" using b l by simp
  have sb: "simps' ! length simps = b" using old by (simp add: nth_append)
  have hb: "h' ! b = h1 ! b" by (rule evolves_same [OF e2 b1 bA])
  have a1: "?a < length h1" using a l by simp
  have first: "simps' ! (length simps + 0) \<notin> A \<and> simps' ! (length simps + 0) < length h'
                 \<and> fixedWithin (h' ! (simps' ! (length simps + 0))) (h ! ?a)
                 \<and> fixedWithin (h' ! ?a) (h' ! (simps' ! (length simps + 0)))"
  proof -
    have "fixedWithin (h' ! b) (h ! ?a)"
      unfolding hb using f1 evolves_fixed [OF e1 a] by (rule fixedWithin_trans)
    moreover have "fixedWithin (h' ! ?a) (h' ! b)"
      unfolding hb using evolves_fixed [OF e2 a1] f2 by (rule fixedWithin_trans)
    moreover have "b < length h'" using evolves_length [OF e2] b1 by simp
    ultimately show ?thesis using sb bA by simp
  qed
  have rest: "simps' ! (length simps + Suc k) \<notin> A \<and> simps' ! (length simps + Suc k) < length h'
                 \<and> fixedWithin (h' ! (simps' ! (length simps + Suc k))) (h ! (asc ! (is ! k)))
                 \<and> fixedWithin (h' ! (asc ! (is ! k))) (h' ! (simps' ! (length simps + Suc k)))"
    if "k < length is" for k
  proof -
    from that Cons.prems(2,3) have ak: "asc ! (is ! k) < length h" by auto
    from new that have n: "simps' ! (length simps + Suc k) \<notin> A" "simps' ! (length simps + Suc k) < length h'"
      "fixedWithin (h' ! (simps' ! (length simps + Suc k))) (h1 ! (asc ! (is ! k)))"
      "fixedWithin (h' ! (asc ! (is ! k))) (h' ! (simps' ! (length simps + Suc k)))"
      by auto
    from n(3) evolves_fixed [OF e1A ak] have "fixedWithin (h' ! (simps' ! (length simps + Suc k))) (h ! (asc ! (is ! k)))"
      by (rule fixedWithin_trans)
    with n show ?thesis by simp
  qed
  have all: "simps' ! (length simps + k) \<notin> A \<and> simps' ! (length simps + k) < length h'
                 \<and> fixedWithin (h' ! (simps' ! (length simps + k))) (h ! (asc ! ((i # is) ! k)))
                 \<and> fixedWithin (h' ! (asc ! ((i # is) ! k))) (h' ! (simps' ! (length simps + k)))"
    if "k < length (i # is)" for k
  proof (cases k)
    case 0
    with first show ?thesis by simp
  next
    case (Suc k')
    with that rest [of k'] show ?thesis by simp
  qed
  have "\<forall>k < length simps. simps' ! k = simps ! k" using old by (auto simp: nth_append)
  with evolves_trans [OF e1A e2] len all show ?case by simp
qed


text \<open>
  The fixed points of the intersection simplifier between the ranks \<open>k\<close> and \<open>k + 1\<close>
  are fixed points of the element simplifier of rank \<open>k\<close>: both come from the object
  \<^verbatim>\<open>ascendingSimplifiers[k]\<close>, the former at a later time.
\<close>

lemma buildSimplifiers_fixed:
  assumes "comparatorExact P" and "buildSimplifiers P = Some (Inr S)" and "k < dimensionsS P"
  shows "\<exists>interS. intersectionSimplifiers S ! k = Some interS
           \<and> fixedWithin (storeOf S ! interS) (storeOf S ! (elementSimplifiers S ! k))"
proof -
  let ?n = "dimensionsS P"
  from assms(2) obtain h1 asc h2 desc h3 elems h4 inters where
    a: "ascending P [0..<?n] [identitySimplifier P] [0] 0 = Some (Inr (h1, asc))"
    and d: "descending P [0..<?n] h1 [0] = Some (Inr (h2, desc))"
    and m1: "merges P 1 asc desc [0..<?n] h2 [] = Some (Inr (h3, elems))"
    and m2: "merges P 2 asc desc [0..<?n - 1] h3 [] = Some (Inr (h4, inters))"
    and S: "S = \<lparr>storeOf = h4, elementSimplifiers = elems @ [asc ! ?n],
                 intersectionSimplifiers =
                   map Some inters @ [if ?n = 0 then None else Some (asc ! (?n - 1))]\<rparr>"
    by (auto simp: buildSimplifiers_def Let_def dest!: bindR_Inr)
  from ascending_addresses [OF assms(1) a] have asc1: "\<forall>a \<in> set asc. a < length h1"
    and lasc: "length asc = Suc ?n" by auto
  from descending_length [OF assms(1) d] asc1 have asc2: "\<forall>a \<in> set asc. a < length h2" by auto
  have in1: "\<forall>i \<in> set [0..<?n]. asc ! i \<in> set asc" using lasc by auto
  from merges_store [OF assms(1) m1 in1 asc2] have e23: "evolves (set asc) h2 h3"
    and lel: "length elems = ?n"
    and el: "\<forall>k < ?n. elems ! k \<notin> set asc \<and> elems ! k < length h3
               \<and> fixedWithin (h3 ! (asc ! k)) (h3 ! (elems ! k))"
    by auto
  from evolves_length [OF e23] asc2 have asc3: "\<forall>a \<in> set asc. a < length h3" by auto
  have in2: "\<forall>i \<in> set [0..<?n - 1]. asc ! i \<in> set asc" using lasc by auto
  from merges_store [OF assms(1) m2 in2 asc3] have e34: "evolves (set asc) h3 h4"
    and lin: "length inters = ?n - 1"
    and inl: "\<forall>k < ?n - 1. fixedWithin (h4 ! (inters ! k)) (h3 ! (asc ! k))"
    by auto
  from el assms(3) have ek: "elems ! k \<notin> set asc" "elems ! k < length h3"
    and fk: "fixedWithin (h3 ! (asc ! k)) (h3 ! (elems ! k))" by auto
  have same: "h4 ! (elems ! k) = h3 ! (elems ! k)" by (rule evolves_same [OF e34 ek(2) ek(1)])
  have elemk: "elementSimplifiers S ! k = elems ! k" using assms(3) lel by (simp add: S nth_append)
  have ak: "asc ! k < length h3" using asc3 lasc assms(3) by auto
  show ?thesis
  proof (cases "k < ?n - 1")
    case True
    then have "intersectionSimplifiers S ! k = Some (inters ! k)" using lin by (simp add: S nth_append)
    moreover from inl True fk have "fixedWithin (h4 ! (inters ! k)) (h3 ! (elems ! k))"
      by (blast intro: fixedWithin_trans)
    ultimately show ?thesis using same elemk by (simp add: S)
  next
    case False
    with assms(3) have k: "k = ?n - 1" "?n \<noteq> 0" by auto
    then have "intersectionSimplifiers S ! k = Some (asc ! k)" using lin by (simp add: S nth_append)
    moreover from evolves_fixed [OF e34 ak] fk have "fixedWithin (h4 ! (asc ! k)) (h3 ! (elems ! k))"
      by (rule fixedWithin_trans)
    ultimately show ?thesis using same elemk by (simp add: S)
  qed
qed


lemma numberFrom_injective:
  "\<forall>a l. map_of row a = Some l \<longrightarrow> l < n \<Longrightarrow> injectiveMap row \<Longrightarrow>
     injectiveMap (numberFrom n xs row)"
proof (induction xs arbitrary: n row)
  case Nil
  then show ?case by simp
next
  case (Cons x xs)
  have m: "map_of (AList.update x n row) a = (if a = x then Some n else map_of row a)" for a
    by (simp add: update_conv')
  have bound: "\<forall>a l. map_of (AList.update x n row) a = Some l \<longrightarrow> l < Suc n"
  proof (intro allI impI)
    fix a l assume "map_of (AList.update x n row) a = Some l"
    then have "l = n \<or> map_of row a = Some l" by (simp add: m split: if_splits)
    with Cons.prems(1) show "l < Suc n" by (auto simp: less_Suc_eq)
  qed
  have inj: "injectiveMap (AList.update x n row)"
    unfolding injectiveMap_def
  proof (intro allI impI)
    fix a b l
    assume ab: "map_of (AList.update x n row) a = Some l \<and> map_of (AList.update x n row) b = Some l"
    show "a = b"
    proof (cases "a = x"; cases "b = x")
      assume "a = x" "b = x" then show ?thesis by simp
    next
      assume "a = x" "b \<noteq> x"
      with ab have "map_of row b = Some n" by (simp add: m)
      with Cons.prems(1) have "n < n" by blast
      then show ?thesis by simp
    next
      assume "a \<noteq> x" "b = x"
      with ab have "map_of row a = Some n" by (simp add: m)
      with Cons.prems(1) have "n < n" by blast
      then show ?thesis by simp
    next
      assume "a \<noteq> x" "b \<noteq> x"
      with ab have "map_of row a = Some l" "map_of row b = Some l" by (simp_all add: m)
      with Cons.prems(2) show ?thesis unfolding injectiveMap_def by blast
    qed
  qed
  from Cons.IH [OF bound inj] show ?case by simp
qed

lemma locationsRow_injective:
  assumes "locationsRow P simplifier = Inr loc"
  shows "injectiveMap (fst loc)"
proof -
  from assms obtain reps where "fst loc = numberFrom 0 reps []"
    by (auto simp: locationsRow_def split: sum.splits)
  moreover have "injectiveMap (numberFrom 0 reps [])"
    by (rule numberFrom_injective) (simp_all add: injectiveMap_def)
  ultimately show ?thesis by simp
qed

lemma sumMap_nth:
  "sumMap f xs = Inr ys \<Longrightarrow> length ys = length xs \<and> (\<forall>k < length xs. f (xs ! k) = Inr (ys ! k))"
proof (induction xs arbitrary: ys)
  case Nil
  then show ?case by simp
next
  case (Cons x xs)
  from Cons.prems obtain y ys' where "f x = Inr y" "sumMap f xs = Inr ys'" "ys = y # ys'"
    by (auto split: sum.splits)
  with Cons.IH [of ys'] show ?case by (auto simp: nth_Cons split: nat.splits)
qed

lemma pushInto_result:
  "pushInto elements rightID leftID = Inr elements' \<Longrightarrow>
     \<exists>r l. leftID = Some l \<and> r < length elements \<and> elements' = elements[r := elements ! r @ [l]]"
  by (auto simp: pushInto_def split: option.splits if_splits)

text \<open>
  The loop that fills one rank keeps the adjacency lists free of repetitions, as long as
  every flag that passes the test of the intersection simplifier is its own image under
  the simplifier of the lower rank, and no flag is scanned twice.
\<close>

lemma incidences_distinct:
  assumes "comparatorExact P" and "fixedWithin interS leftS" and "injectiveMap leftLoc"
  shows "incidences P interS leftS rightS leftLoc rightLoc elements flags = Inr result \<Longrightarrow>
         distinct flags \<Longrightarrow> \<forall>e \<in> set elements. distinct e \<Longrightarrow>
         \<forall>e \<in> set elements. \<forall>f \<in> set flags. \<forall>l. map_of leftLoc f = Some l \<longrightarrow> l \<notin> set e \<Longrightarrow>
           \<forall>e \<in> set result. distinct e"
proof (induction flags arbitrary: elements)
  case Nil
  then show ?case by simp
next
  case (Cons flag flags)
  from Cons.prems(1) obtain b where b: "isRepresentative P interS flag = Inr b"
    by (auto split: sum.splits)
  show ?case
  proof (cases b)
    case False
    with b Cons.prems(1) have "incidences P interS leftS rightS leftLoc rightLoc elements flags = Inr result"
      by simp
    from Cons.IH [OF this] Cons.prems(2,3,4) show ?thesis by simp
  next
    case True
    with b have "map_of interS flag = Some flag"
      by (auto simp: isRepresentative_def equalFlags_iff [OF assms(1)] split: option.splits)
    with assms(2) have left: "map_of leftS flag = Some flag" by (simp add: fixedWithin_def)
    from Cons.prems(1) b True left obtain rightFlag elements' where
      p: "pushInto elements (map_of rightLoc rightFlag) (map_of leftLoc flag) = Inr elements'"
      and r: "incidences P interS leftS rightS leftLoc rightLoc elements' flags = Inr result"
      by (auto split: sum.splits option.splits)
    from pushInto_result [OF p] obtain k l where
      l: "map_of leftLoc flag = Some l" and k: "k < length elements"
      and e': "elements' = elements[k := elements ! k @ [l]]" by blast
    have sub: "set elements' \<subseteq> insert (elements ! k @ [l]) (set elements)"
      unfolding e' by (rule set_update_subset_insert)
    from Cons.prems(4) l k have fresh: "l \<notin> set (elements ! k)" by auto
    have d: "\<forall>e \<in> set elements'. distinct e"
    proof
      fix e assume "e \<in> set elements'"
      with sub have "e = elements ! k @ [l] \<or> e \<in> set elements" by auto
      then show "distinct e" using fresh Cons.prems(3) k by auto
    qed
    have i: "\<forall>e \<in> set elements'. \<forall>f \<in> set flags. \<forall>l'. map_of leftLoc f = Some l' \<longrightarrow> l' \<notin> set e"
    proof (intro ballI allI impI)
      fix e f l' assume e: "e \<in> set elements'" and f: "f \<in> set flags" and l': "map_of leftLoc f = Some l'"
      from f Cons.prems(2) have "f \<noteq> flag" by auto
      with l l' assms(3) have "l' \<noteq> l" by (auto simp: injectiveMap_def)
      moreover from Cons.prems(4) f l' have "\<forall>e \<in> set elements. l' \<notin> set e" by auto
      ultimately show "l' \<notin> set e" using e sub k by (auto simp: subset_iff)
    qed
    from Cons.IH [OF r _ d i] Cons.prems(2) show ?thesis by simp
  qed
qed

lemma flags_domain:
  "f \<in> set (concat (map (\<lambda>d. map (\<lambda>j. Flag j d) [0..<m]) ds)) \<Longrightarrow> domain f \<in> set ds"
  by (induction ds) auto

lemma distinct_flags:
  "distinct ds \<Longrightarrow> distinct (concat (map (\<lambda>d. map (\<lambda>j. Flag j d) [0..<m]) ds))"
proof (induction ds)
  case Nil
  then show ?case by simp
next
  case (Cons d ds)
  have "distinct (map (\<lambda>j. Flag j d) [0..<m])"
    by (simp add: distinct_map inj_on_def)
  moreover have "set (map (\<lambda>j. Flag j d) [0..<m]) \<inter> set (concat (map (\<lambda>d. map (\<lambda>j. Flag j d) [0..<m]) ds)) = {}"
  proof (rule ccontr)
    assume "\<not> ?thesis"
    then obtain f where f1: "f \<in> set (map (\<lambda>j. Flag j d) [0..<m])"
      and f2: "f \<in> set (concat (map (\<lambda>d. map (\<lambda>j. Flag j d) [0..<m]) ds))" by blast
    from f1 have "domain f = d" by auto
    with flags_domain [OF f2] Cons.prems show False by simp
  qed
  ultimately show ?case using Cons by simp
qed

lemma distinct_allFlags:
  "distinct (enumerateElements (symmetries P)) \<Longrightarrow> distinct (allFlags P)"
  unfolding allFlags_def by (rule distinct_flags)

lemma newPolytopeC_elementList: "newPolytopeC el constr = Inr C \<Longrightarrow> elementList C = el"
  by (auto simp: newPolytopeC_def split: sum.splits)

text \<open>
  C4.  Let the group's comparator return 0 exactly on equal elements, and let the
  enumeration of the group name no element twice.  Then in the explicit polytope that
  \<^verbatim>\<open>toPolytopeC()\<close> returns, no element of any rank \<open>d \<ge> 1\<close> lists a boundary
  index twice.  Only the flags fixed by the intersection simplifier push an index, each
  pushes the index of itself, and different flags have different indices.
\<close>

theorem toPolytopeC_adjacency_distinct:
  assumes "comparatorExact P"
    and "distinct (enumerateElements (symmetries P))"
    and "toPolytopeC P = Some (Inr C)"
  shows "\<forall>level \<in> set (higherLevels (elementList C)). \<forall>element \<in> set level. distinct element"
proof -
  let ?n = "dimensionsS P"
  from assms(3) obtain S el where S: "buildSimplifiers P = Some (Inr S)"
    and el: "toElementList P S = Inr el" and C: "newPolytopeC el None = Inr C"
    by (auto simp: toPolytopeC_def dest!: bindR_Inr split: sum.splits)
  from el obtain vertices locations higher where
    loc: "sumMap (\<lambda>i. locationsRow P (storeOf S ! (elementSimplifiers S ! i))) [0..<?n + 1] = Inr locations"
    and hi: "sumMap (higherElements P S locations) [1..<?n + 1] = Inr higher"
    and lv: "el = Levels vertices higher"
    by (auto simp: toElementList_def split: sum.splits)
  from sumMap_nth [OF hi] have lh: "length higher = ?n"
    and hk: "\<forall>k < ?n. higherElements P S locations (Suc k) = Inr (higher ! k)"
    by (auto simp del: upt_Suc)
  from sumMap_nth [OF loc] have
    lk: "\<forall>k < ?n. locationsRow P (storeOf S ! (elementSimplifiers S ! k)) = Inr (locations ! k)"
    by (auto simp del: upt_Suc)
  have each: "\<forall>element \<in> set (higher ! k). distinct element" if k: "k < ?n" for k
  proof -
    from buildSimplifiers_fixed [OF assms(1) S k] obtain interS where
      i: "intersectionSimplifiers S ! k = Some interS"
      and f: "fixedWithin (storeOf S ! interS) (storeOf S ! (elementSimplifiers S ! k))" by blast
    from lk k have inj: "injectiveMap (fst (locations ! k))" by (auto dest: locationsRow_injective)
    from hk k have "higherElements P S locations (Suc k) = Inr (higher ! k)" by simp
    with i have
      "incidences P (storeOf S ! interS) (storeOf S ! (elementSimplifiers S ! k))
         (storeOf S ! (elementSimplifiers S ! Suc k)) (fst (locations ! k)) (fst (locations ! Suc k))
         (replicate (snd (locations ! Suc k)) []) (allFlags P) = Inr (higher ! k)"
      by (simp add: higherElements_def)
    from incidences_distinct [OF assms(1) f inj this distinct_allFlags [OF assms(2)]]
    show ?thesis by simp
  qed
  have "\<forall>level \<in> set higher. \<forall>element \<in> set level. distinct element"
  proof
    fix level assume "level \<in> set higher"
    then obtain k where "k < length higher" "level = higher ! k" by (auto simp: in_set_conv_nth)
    with lh each [of k] show "\<forall>element \<in> set level. distinct element" by simp
  qed
  with newPolytopeC_elementList [OF C] lv show ?thesis by simp
qed


lemma indexIn_exact:
  "x \<in> set xs \<Longrightarrow> y \<in> set xs \<Longrightarrow> (indexIn xs x = indexIn xs y) = (x = y)"
  by (induction xs) auto

lemma orderC_complete: "(x :: d4) \<in> set orderC"
proof -
  obtain q s where x: "x = (q, s)" by (cases x)
  show ?thesis unfolding x by (cases q; cases s) (simp_all add: orderC_def)
qed

lemma comparatorExact_squareC: "comparatorExact (squareOf enumerationC orderC)"
proof -
  have "(compareBy (indexIn orderC) a b = 0) = (a = b)" for a b :: d4
    using indexIn_exact [OF orderC_complete [of a] orderC_complete [of b]]
    by (auto simp: compareBy_def)
  then show ?thesis by (simp add: comparatorExact_def squareOf_def d4group_def)
qed

lemma toPolytopeC_squareC:
  "toPolytopeC (squareOf enumerationC orderC)
     = Some (Inr \<lparr>construction = CNPlain 1 2, dimensions = 2, spaceDimensions = 2,
                  elementList = Levels [Point [0, - 1], Point [1, 0]] [[[0, 1]], [[0]]]\<rparr>)"
  by code_simp

theorem toPolytopeC_adjacency_distinct_witness:
  "comparatorExact (squareOf enumerationC orderC)
   \<and> distinct (enumerateElements (symmetries (squareOf enumerationC orderC)))
   \<and> toPolytopeC (squareOf enumerationC orderC)
       = Some (Inr \<lparr>construction = CNPlain 1 2, dimensions = 2, spaceDimensions = 2,
                    elementList = Levels [Point [0, - 1], Point [1, 0]] [[[0, 1]], [[0]]]\<rparr>)
   \<and> list_all (list_all distinct) (higherLevels (elementList
          \<lparr>construction = CNPlain 1 2, dimensions = 2, spaceDimensions = 2,
           elementList = Levels [Point [0, - 1], Point [1, 0]] [[[0, 1]], [[0]]]\<rparr>))"
proof -
  have d: "distinct (enumerateElements (symmetries (squareOf enumerationC orderC)))"
    by (simp add: squareOf_def d4group_def enumerationC_def)
  from toPolytopeC_adjacency_distinct [OF comparatorExact_squareC d toPolytopeC_squareC]
    comparatorExact_squareC d toPolytopeC_squareC
  show ?thesis unfolding list_all_iff by blast
qed

section \<open>What holds of every simplifier\<close>

lemma strictTotalOrder_exact: "strictTotalOrder P \<Longrightarrow> comparatorExact P"
  unfolding strictTotalOrder_def comparatorExact_def Let_def by blast

lemma order_refl0: "strictTotalOrder P \<Longrightarrow> compare (symmetries P) a a = 0"
  unfolding strictTotalOrder_def Let_def by blast

lemma order_flip: "strictTotalOrder P \<Longrightarrow> (compare (symmetries P) a b = 1) = (compare (symmetries P) b a = - 1)"
  unfolding strictTotalOrder_def Let_def by blast

lemma order_cases:
  "strictTotalOrder P \<Longrightarrow>
     compare (symmetries P) a b = - 1 \<or> compare (symmetries P) a b = 0 \<or> compare (symmetries P) a b = 1"
  unfolding strictTotalOrder_def Let_def by blast

lemma order_trans:
  "strictTotalOrder P \<Longrightarrow> compare (symmetries P) a b = - 1 \<Longrightarrow> compare (symmetries P) b c = - 1 \<Longrightarrow>
     compare (symmetries P) a c = - 1"
  unfolding strictTotalOrder_def Let_def by blast

lemma flagLE_refl: "strictTotalOrder P \<Longrightarrow> flagLE P a a"
  by (simp add: flagLE_def compareFlags_def order_refl0)

lemma compareFlags_cases:
  assumes "strictTotalOrder P"
  shows "compareFlags P a b = - 1 \<or> compareFlags P a b = 0 \<or> compareFlags P a b = 1"
  using order_cases [OF assms, of "domain a" "domain b"] by (simp add: compareFlags_def)

lemma compareFlags_flip:
  assumes "strictTotalOrder P"
  shows "(compareFlags P a b = 1) = (compareFlags P b a = - 1)"
  using order_flip [OF assms, of "domain a" "domain b"] by (simp add: compareFlags_def)

lemma compareFlags_less_trans:
  assumes "strictTotalOrder P" and "compareFlags P a b = - 1" and "compareFlags P b c = - 1"
  shows "compareFlags P a c = - 1"
proof -
  consider "classNumber a < classNumber b" | "classNumber a = classNumber b" "compare (symmetries P) (domain a) (domain b) = - 1"
    using assms(2) by (auto simp: compareFlags_def split: if_splits)
  then show ?thesis
  proof cases
    case 1
    moreover from assms(3) have "classNumber b \<le> classNumber c"
      by (auto simp: compareFlags_def split: if_splits)
    ultimately show ?thesis by (simp add: compareFlags_def)
  next
    case 2
    consider "classNumber b < classNumber c" | "classNumber b = classNumber c" "compare (symmetries P) (domain b) (domain c) = - 1"
      using assms(3) by (auto simp: compareFlags_def split: if_splits)
    then show ?thesis
    proof cases
      case 1
      with 2 show ?thesis by (simp add: compareFlags_def)
    next
      case 2
      with \<open>classNumber a = classNumber b\<close> order_trans [OF assms(1) \<open>compare (symmetries P) (domain a) (domain b) = - 1\<close> 2(2)]
      show ?thesis by (simp add: compareFlags_def)
    qed
  qed
qed

lemma flagLE_trans:
  assumes "strictTotalOrder P" and "flagLE P a b" and "flagLE P b c"
  shows "flagLE P a c"
proof -
  have eq: "compareFlags P x y = 0 \<Longrightarrow> x = y" for x y
    using equalFlags_iff [OF strictTotalOrder_exact [OF assms(1)], of x y] by (simp add: equalFlags_def)
  from assms(2) compareFlags_cases [OF assms(1), of a b] have ab: "compareFlags P a b = - 1 \<or> a = b"
    by (auto simp: flagLE_def dest: eq)
  from assms(3) compareFlags_cases [OF assms(1), of b c] have bc: "compareFlags P b c = - 1 \<or> b = c"
    by (auto simp: flagLE_def dest: eq)
  from ab bc consider "a = b" | "b = c" | "compareFlags P a b = - 1" "compareFlags P b c = - 1" by blast
  then show ?thesis
  proof cases
    case 1 with assms(3) show ?thesis by simp
  next
    case 2 with assms(2) show ?thesis by simp
  next
    case 3
    from compareFlags_less_trans [OF assms(1) 3] show ?thesis by (simp add: flagLE_def)
  qed
qed

lemma resolve_below:
  assumes "strictTotalOrder P" and "decreasing P m" and "resolve P m oldElem elem = Some y"
  shows "y = Inr r \<longrightarrow> (\<exists>e. elem = Some e \<and> flagLE P r e)"
proof -
  have "(case (((P, m), oldElem), elem) of (((P, m), oldElem), elem) \<Rightarrow> \<lambda>y.
          strictTotalOrder P \<longrightarrow> decreasing P m \<longrightarrow> y = Inr r \<longrightarrow> (\<exists>e. elem = Some e \<and> flagLE P r e)) y"
  proof (rule resolve.raw_induct [OF _ assms(3)], goal_cases)
    case (1 resolve' P m oldElem elem y)
    show ?case
    proof (cases elem)
      case None
      with 1(2) show ?thesis by auto
    next
      case (Some e)
      show ?thesis
      proof (cases "equalFlags P oldElem e")
        case True
        with 1(2) Some show ?thesis by (auto simp: flagLE_refl)
      next
        case False
        with 1(2) Some have rec: "resolve' P m e (map_of m e) = Some y" by simp
        show ?thesis
        proof (clarsimp simp: Some)
          assume o: "strictTotalOrder P" and d: "decreasing P m" and y: "y = Inr r"
          from 1(1) [OF rec] o d y obtain e' where e': "map_of m e = Some e'" and "flagLE P r e'"
            by auto
          moreover from d e' have "flagLE P e' e" by (simp add: decreasing_def)
          ultimately show "flagLE P r e" using flagLE_trans [OF o] by blast
        qed
      qed
    qed
  qed
  with assms(1,2) show ?thesis by simp
qed


lemma unionStep_cases:
  assumes "unionStep P idS s1 s2 heap key = Some (Inr heap')"
  shows "\<exists>l r. heap' = (if compareFlags P l r = 1 then heap[s1 := AList.update l r (heap ! s1)]
                         else if compareFlags P l r = - 1 then heap[s1 := AList.update r l (heap ! s1)]
                         else heap)"
proof -
  define R where "R h = (\<exists>l r. h = (if compareFlags P l r = 1 then heap[s1 := AList.update l r (heap ! s1)]
                         else if compareFlags P l r = - 1 then heap[s1 := AList.update r l (heap ! s1)]
                         else heap))" for h
  have final: "R h"
    if "(if compareFlags P l r = 1 then Some (Inr (heap[s1 := AList.update l r (heap ! s1)]))
         else if compareFlags P l r = - 1 then Some (Inr (heap[s1 := AList.update r l (heap ! s1)]))
         else Some (Inr heap)) = Some (Inr h)" for l r h
    unfolding R_def
    by (rule exI [of _ l], rule exI [of _ r]) (use that in \<open>simp split: if_splits\<close>)
  from assms have "R heap'"
    by (auto simp: unionStep_def Let_def split: sum.splits prod.splits dest!: bindR_Inr dest: final)
  then show ?thesis unfolding R_def .
qed

text \<open>
  A property of the simplifier at \<open>s1\<close> that survives every redirection of a greater
  flag to a smaller one survives the first loop of \<^verbatim>\<open>modifySimplifier\<close>.
\<close>

lemma unionLoop_invariant:
  assumes up: "\<And>m l r. Q m \<Longrightarrow> compareFlags P l r = 1 \<Longrightarrow> Q (AList.update l r m)"
    and down: "\<And>m l r. Q m \<Longrightarrow> compareFlags P l r = - 1 \<Longrightarrow> Q (AList.update r l m)"
  shows "unionLoop P idS s1 s2 heap keys = Some (Inr heap') \<Longrightarrow> s1 < length heap \<Longrightarrow> Q (heap ! s1) \<Longrightarrow>
           Q (heap' ! s1) \<and> length heap' = length heap"
proof (induction keys arbitrary: heap)
  case Nil
  then show ?case by simp
next
  case (Cons key keys)
  from Cons.prems(1) obtain h1 where
    s: "unionStep P idS s1 s2 heap key = Some (Inr h1)" and l: "unionLoop P idS s1 s2 h1 keys = Some (Inr heap')"
    by (auto dest!: bindR_Inr)
  from unionStep_cases [OF s] obtain x y where
    h1: "h1 = (if compareFlags P x y = 1 then heap[s1 := AList.update x y (heap ! s1)]
               else if compareFlags P x y = - 1 then heap[s1 := AList.update y x (heap ! s1)]
               else heap)" by blast
  have q: "Q (h1 ! s1)" and len: "length h1 = length heap"
    using Cons.prems(2,3) up [of "heap ! s1" x y] down [of "heap ! s1" x y] by (simp_all add: h1)
  from Cons.prems(2) len have "s1 < length h1" by simp
  from Cons.IH [OF l this q] len show ?case by simp
qed

lemma cleanUp_decreasing:
  assumes "strictTotalOrder P" and "decreasing P new"
    and "cleanUp P new [] (map fst new) = Some (Inr better)"
  shows "decreasing P better"
  unfolding decreasing_def
proof (intro allI impI)
  fix k v assume kv: "map_of better k = Some v"
  have "k \<in> set (map fst new)"
  proof (rule ccontr)
    assume "k \<notin> set (map fst new)"
    from cleanUp_other [OF assms(3) this] kv show False by simp
  qed
  from cleanUp_key [OF assms(3) this] kv
  have r: "resolve P new (Flag 0 (identity (symmetries P))) (map_of new k) = Some (Inr v)" by auto
  from resolve_below [OF assms(1,2) r, of v] obtain e where e: "map_of new k = Some e" and "flagLE P v e"
    by auto
  moreover from assms(2) e have "flagLE P e k" by (simp add: decreasing_def)
  ultimately show "flagLE P v k" using flagLE_trans [OF assms(1)] by blast
qed

text \<open>
  The part of representative minimality that holds in general: when the simplifier
  passed in sends every key to a flag that is not greater, so does the simplifier
  returned, \<open>lookup(f) \<le> f\<close>.
\<close>

lemma modifySimplifier_decreasing:
  assumes "strictTotalOrder P" and "modifySimplifier P idS heap s1 s2 = Some (Inr (heap', b))"
    and "s1 < length heap" and "decreasing P (heap ! s1)"
  shows "decreasing P (heap' ! b) \<and> decreasing P (heap' ! s1)"
proof -
  from assms(2) obtain h1 better where
    u: "unionLoop P idS s1 s2 heap (map fst (heap ! s1)) = Some (Inr h1)"
    and c: "cleanUp P (h1 ! s1) [] (map fst (h1 ! s1)) = Some (Inr better)"
    and h': "heap' = h1 @ [better]" and b: "b = length h1"
    by (auto simp: modifySimplifier_def dest!: bindR_Inr)
  have up: "decreasing P (AList.update l r m)" if "decreasing P m" "compareFlags P l r = 1" for m l r
    using that compareFlags_flip [OF assms(1), of l r]
    by (auto simp: decreasing_def flagLE_def update_conv' split: if_splits)
  have down: "decreasing P (AList.update r l m)" if "decreasing P m" "compareFlags P l r = - 1" for m l r
    using that by (auto simp: decreasing_def flagLE_def update_conv' split: if_splits)
  have "decreasing P (h1 ! s1) \<and> length h1 = length heap"
    by (rule unionLoop_invariant [of "decreasing P", OF up down u assms(3,4)])
  then have d: "decreasing P (h1 ! s1)" and len: "length h1 = length heap" by blast+
  from cleanUp_decreasing [OF assms(1) d c] d len assms(3) show ?thesis
    by (simp add: h' b nth_append)
qed

text \<open>
  Idempotence holds when the flag of class 0 at the identity, the start value of
  \<^verbatim>\<open>oldElem\<close>, is the least flag and is a fixed point of the simplifier passed in: then
  it stays a fixed point, and the clean-up pass ends at fixed points only.
\<close>

lemma modifySimplifier_idempotent:
  assumes "comparatorExact P"
    and least: "\<forall>x. compareFlags P (Flag 0 (identity (symmetries P))) x \<noteq> 1
                 \<and> compareFlags P x (Flag 0 (identity (symmetries P))) \<noteq> - 1"
    and "modifySimplifier P idS heap s1 s2 = Some (Inr (heap', b))"
    and "s1 < length heap"
    and "map_of (heap ! s1) (Flag 0 (identity (symmetries P))) = Some (Flag 0 (identity (symmetries P)))"
  shows "map_of (heap' ! b) f = Some r \<longrightarrow> map_of (heap' ! b) r = Some r"
proof
  let ?s = "Flag 0 (identity (symmetries P))"
  assume fr: "map_of (heap' ! b) f = Some r"
  from assms(3) obtain h1 better where
    u: "unionLoop P idS s1 s2 heap (map fst (heap ! s1)) = Some (Inr h1)"
    and c: "cleanUp P (h1 ! s1) [] (map fst (h1 ! s1)) = Some (Inr better)"
    and h': "heap' = h1 @ [better]" and b: "b = length h1"
    by (auto simp: modifySimplifier_def dest!: bindR_Inr)
  have up: "map_of (AList.update l r m) ?s = Some ?s" if "map_of m ?s = Some ?s" "compareFlags P l r = 1" for m l r
  proof -
    from least have "compareFlags P ?s r \<noteq> 1" by blast
    with that(2) have "l \<noteq> ?s" by blast
    with that(1) show ?thesis by (simp add: update_conv')
  qed
  have down: "map_of (AList.update r l m) ?s = Some ?s" if "map_of m ?s = Some ?s" "compareFlags P l r = - 1" for m l r
  proof -
    from least have "compareFlags P l ?s \<noteq> - 1" by blast
    with that(2) have "r \<noteq> ?s" by blast
    with that(1) show ?thesis by (simp add: update_conv')
  qed
  define Q where "Q m = (map_of m ?s = Some ?s)" for m :: "('a, 'a Flag) FlagMap"
  have "Q (h1 ! s1) \<and> length h1 = length heap"
  proof (rule unionLoop_invariant [OF _ _ u assms(4)])
    show "Q (AList.update l r m)" if "Q m" "compareFlags P l r = 1" for m l r
      using that up unfolding Q_def by blast
    show "Q (AList.update r l m)" if "Q m" "compareFlags P l r = - 1" for m l r
      using that down unfolding Q_def by blast
    show "Q (heap ! s1)" using assms(5) unfolding Q_def .
  qed
  then have s: "map_of (h1 ! s1) ?s = Some ?s" unfolding Q_def by blast
  from fr have fr': "map_of better f = Some r" by (simp add: h' b)
  have "f \<in> set (map fst (h1 ! s1))"
  proof (rule ccontr)
    assume "f \<notin> set (map fst (h1 ! s1))"
    from cleanUp_other [OF c this] fr' show False by simp
  qed
  from cleanUp_key [OF c this] fr'
  have "resolve P (h1 ! s1) ?s (map_of (h1 ! s1) f) = Some (Inr r)" by auto
  from resolve_result [OF this, of r] have "map_of (h1 ! s1) r = Some r"
    using s by (auto simp: equalFlags_iff [OF assms(1)])
  with cleanUp_fixed_points [OF assms(1) c, of r] show "map_of (heap' ! b) r = Some r"
    by (simp add: h' b)
qed


end
